theory Spec2Isabelle
  imports Main
begin

section \<open>Transport relay (extension/background.js)\<close>

text \<open>
  The service worker keeps one WebSocket, a reconnect counter and the timers it has
  armed. JavaScript numbers are doubles; the delay is
  \<^verbatim>\<open>Math.min(reconnectDelay * Math.pow(2, reconnectAttempts), maxReconnectDelay)\<close>.
  For configuration values that are whole numbers a double holds exactly, as the
  defaults are, the product with a power of two is exact until it overflows to
  \<^verbatim>\<open>Infinity\<close>, where the minimum is \<^verbatim>\<open>maxReconnectDelay\<close>; this is what \<open>min\<close> on
  \<open>nat\<close> gives as well.
\<close>

record relay_config =
  serverUrl :: string
  reconnectDelay :: nat
  maxReconnectDelay :: nat

definition RELAY_CONFIG :: relay_config where
  "RELAY_CONFIG = \<lparr>serverUrl = ''ws://localhost:8765/ws'', reconnectDelay = 3000,
     maxReconnectDelay = 30000\<rparr>"

datatype ready_state = CONNECTING | OPEN | CLOSING | CLOSED

datatype badge = Badge_connected | Badge_connecting | Badge_disconnected | Badge_error

datatype frame = Status_ready | Pong nat | Forwarded string

text \<open>
  \<open>ws = None\<close> is \<^verbatim>\<open>ws === null\<close>; \<open>timers\<close> lists the delays of the pending
  \<^verbatim>\<open>setTimeout(connect, delay)\<close> calls, oldest first; \<open>sent\<close> lists what was
  written to the socket.
\<close>

record relay =
  ws :: "ready_state option"
  reconnectAttempts :: nat
  badge :: badge
  timers :: "nat list"
  sent :: "frame list"

definition updateBadge :: "badge \<Rightarrow> relay \<Rightarrow> relay" where
  "updateBadge b r = r\<lparr>badge := b\<rparr>"

definition scheduleReconnect :: "relay_config \<Rightarrow> relay \<Rightarrow> relay" where
  "scheduleReconnect cfg r =
     (let delay = min (reconnectDelay cfg * 2 ^ reconnectAttempts r) (maxReconnectDelay cfg);
          r1 = r\<lparr>reconnectAttempts := reconnectAttempts r + 1\<rparr>
      in r1\<lparr>timers := timers r1 @ [delay]\<rparr>)"

text \<open>
  \<open>connect\<close>: \<open>ctor_throws\<close> says whether \<^verbatim>\<open>new WebSocket(url)\<close> throws. The
  handlers installed by \<open>connect\<close> are the functions \<open>ws_onopen\<close>, \<open>ws_onerror\<close>
  and \<open>ws_onclose\<close> below.
\<close>

definition connect :: "relay_config \<Rightarrow> bool \<Rightarrow> relay \<Rightarrow> relay" where
  "connect cfg ctor_throws r =
     (if ws r = Some CONNECTING \<or> ws r = Some OPEN then r
      else let r1 = updateBadge Badge_connecting r
           in if ctor_throws then scheduleReconnect cfg r1
              else r1\<lparr>ws := Some CONNECTING\<rparr>)"

definition ws_onopen :: "relay \<Rightarrow> relay" where
  "ws_onopen r =
     (let r1 = r\<lparr>ws := Some OPEN\<rparr>;
          r2 = r1\<lparr>reconnectAttempts := 0\<rparr>;
          r3 = updateBadge Badge_connected r2
      in r3\<lparr>sent := sent r3 @ [Status_ready]\<rparr>)"

definition ws_onerror :: "relay \<Rightarrow> relay" where
  "ws_onerror r = updateBadge Badge_error r"

definition ws_onclose :: "relay_config \<Rightarrow> relay \<Rightarrow> relay" where
  "ws_onclose cfg r =
     scheduleReconnect cfg (updateBadge Badge_disconnected (r\<lparr>ws := None\<rparr>))"

definition reconnect :: "relay_config \<Rightarrow> bool \<Rightarrow> relay \<Rightarrow> relay" where
  "reconnect cfg ctor_throws r =
     connect cfg ctor_throws ((r\<lparr>ws := None\<rparr>)\<lparr>reconnectAttempts := 0\<rparr>)"

text \<open>The delay armed by the failure that finds the counter at \<open>n\<close>.\<close>

definition backoff :: "relay_config \<Rightarrow> nat \<Rightarrow> nat" where
  "backoff cfg n = min (reconnectDelay cfg * 2 ^ n) (maxReconnectDelay cfg)"

text \<open>
  What the event loop can run for the relay: a call of \<open>connect\<close> (by the timer armed
  by \<open>scheduleReconnect\<close>, by the keepalive alarm or at start-up), with \<open>True\<close> when
  the constructor throws; the socket's \<^verbatim>\<open>open\<close>, \<^verbatim>\<open>error\<close> and \<^verbatim>\<open>close\<close> events; and a
  change of the server URL, which calls \<open>reconnect\<close>.
\<close>

datatype relay_event = Connect bool | Opened | Errored | Closed | Reconfigured bool

definition relay_step :: "relay_config \<Rightarrow> relay \<Rightarrow> relay_event \<Rightarrow> relay" where
  "relay_step cfg r ev =
     (case ev of
        Connect ctor_throws \<Rightarrow> connect cfg ctor_throws r
      | Opened \<Rightarrow> ws_onopen r
      | Errored \<Rightarrow> ws_onerror r
      | Closed \<Rightarrow> ws_onclose cfg r
      | Reconfigured ctor_throws \<Rightarrow> reconnect cfg ctor_throws r)"

definition relay_run :: "relay_config \<Rightarrow> relay_event list \<Rightarrow> relay \<Rightarrow> relay" where
  "relay_run cfg evs r = foldl (relay_step cfg) r evs"

text \<open>
  A connection failure: the socket closes, or the constructor throws in a call of
  \<open>connect\<close> that gets as far as the constructor. (An \<^verbatim>\<open>error\<close> event only changes the
  badge; the browser follows it with a \<^verbatim>\<open>close\<close> event.)
\<close>

definition fails :: "relay \<Rightarrow> relay_event \<Rightarrow> bool" where
  "fails r ev =
     (case ev of
        Closed \<Rightarrow> True
      | Connect ctor_throws \<Rightarrow> ctor_throws \<and> ws r \<noteq> Some CONNECTING \<and> ws r \<noteq> Some OPEN
      | _ \<Rightarrow> False)"

text \<open>The number of failures among the events \<open>evs\<close>, run from the state \<open>r\<close>.\<close>

fun failure_count :: "relay_config \<Rightarrow> relay \<Rightarrow> relay_event list \<Rightarrow> nat" where
  "failure_count cfg r [] = 0"
| "failure_count cfg r (ev # evs) =
     (if fails r ev then 1 else 0) + failure_count cfg (relay_step cfg r ev) evs"

text \<open>The events that set the counter to zero themselves.\<close>

fun resets :: "relay_event \<Rightarrow> bool" where
  "resets Opened = True"
| "resets (Reconfigured ctor_throws) = True"
| "resets ev = False"

text \<open>
  The service worker when its script has been evaluated: no socket, the counter at
  zero, no timer. The badge is blank until the first \<open>connect\<close>; the record holds
  \<open>Badge_disconnected\<close> for it, which nothing reads.
\<close>

definition relay_start :: relay where
  "relay_start = \<lparr>ws = None, reconnectAttempts = 0, badge = Badge_disconnected, timers = [],
     sent = []\<rparr>"

section \<open>JavaScript strings\<close>

text \<open>
  A JavaScript string is a sequence of UTF-16 code units, and \<^verbatim>\<open>length\<close>,
  \<^verbatim>\<open>slice\<close> and the regular expressions of the script (none has the \<^verbatim>\<open>u\<close> flag)
  work on code units. \<open>lit\<close> embeds an ASCII literal.
\<close>

type_synonym jsstring = "nat list"

definition lit :: "string \<Rightarrow> jsstring" where
  "lit s = map of_char s"

text \<open>An optional field of a JSON object: \<open>None\<close> is \<^verbatim>\<open>undefined\<close>.\<close>

definition truthy :: "jsstring option \<Rightarrow> bool" where
  "truthy v = (case v of None \<Rightarrow> False | Some s \<Rightarrow> s \<noteq> [])"

text \<open>A value inside a template literal \<^verbatim>\<open>`${v}`\<close>.\<close>

definition interp :: "jsstring option \<Rightarrow> jsstring" where
  "interp v = (case v of None \<Rightarrow> lit ''undefined'' | Some s \<Rightarrow> s)"

definition startsWith :: "jsstring \<Rightarrow> jsstring \<Rightarrow> bool" where
  "startsWith s p = (take (length p) s = p)"

fun str_includes :: "jsstring \<Rightarrow> jsstring \<Rightarrow> bool" where
  "str_includes [] sub = (sub = [])"
| "str_includes (c # s) sub = (startsWith (c # s) sub \<or> str_includes s sub)"

text \<open>
  \<^verbatim>\<open>toLowerCase\<close> on the ASCII letters; the script only uses it to look for the
  ASCII word \<^verbatim>\<open>google\<close> in a voice name.
\<close>

definition toLowerCase :: "jsstring \<Rightarrow> jsstring" where
  "toLowerCase s = map (\<lambda>c. if 65 \<le> c \<and> c \<le> 90 then c + 32 else c) s"

text \<open>
  The characters \<^verbatim>\<open>\s\<close> matches and \<^verbatim>\<open>trim\<close> strips: tab, line feed, vertical tab,
  form feed, carriage return, space, no-break space, the Unicode space separators, the
  line and paragraph separators and the byte order mark.
\<close>

definition is_space :: "nat \<Rightarrow> bool" where
  "is_space c = ((9 \<le> c \<and> c \<le> 13) \<or> c = 32 \<or> c = 0xA0 \<or> c = 0x1680
     \<or> (0x2000 \<le> c \<and> c \<le> 0x200A) \<or> c = 0x2028 \<or> c = 0x2029 \<or> c = 0x202F
     \<or> c = 0x205F \<or> c = 0x3000 \<or> c = 0xFEFF)"

text \<open>\<^verbatim>\<open>s.replace(/\s+/g, ' ')\<close>: every maximal run of white space becomes one space.\<close>

function collapse_spaces :: "jsstring \<Rightarrow> jsstring" where
  "collapse_spaces [] = []"
| "collapse_spaces (c # s) =
     (if is_space c then 32 # collapse_spaces (dropWhile is_space s)
      else c # collapse_spaces s)"
  by pat_completeness auto
termination
  by (relation "measure length") (auto simp: le_imp_less_Suc length_dropWhile_le)

definition trim :: "jsstring \<Rightarrow> jsstring" where
  "trim s = rev (dropWhile is_space (rev (dropWhile is_space s)))"

text \<open>\<^verbatim>\<open>xs.join(' ')\<close>\<close>

fun join_space :: "jsstring list \<Rightarrow> jsstring" where
  "join_space [] = []"
| "join_space [s] = s"
| "join_space (s # t # ss) = s @ 32 # join_space (t # ss)"

section \<open>Speech engine: language detection and voice choice (content script, TTS)\<close>

record language =
  name :: string
  pattern :: "nat \<Rightarrow> bool"
  langPrefix :: string
  isDefault :: bool

text \<open>
  Each \<^verbatim>\<open>pattern\<close> of \<^verbatim>\<open>TTS_LANGUAGES\<close> is a global regular expression of one
  character class, so its matches in a text are the code units of the class; the
  class is given here as a predicate on code units.
\<close>

definition German :: language where
  "German = \<lparr>name = ''German'',
     pattern = (\<lambda>c. c \<in> set [0xE4, 0xF6, 0xFC, 0xDF, 0xC4, 0xD6, 0xDC, 0x1E9E]),
     langPrefix = ''de'', isDefault = False\<rparr>"

definition French :: language where
  "French = \<lparr>name = ''French'',
     pattern = (\<lambda>c. c \<in> set [0xE0, 0xE2, 0xE6, 0xE7, 0xE9, 0xE8, 0xEA, 0xEB, 0xEE, 0xEF,
        0xF4, 0xF9, 0xFB, 0xFC, 0x153, 0xC0, 0xC2, 0xC6, 0xC7, 0xC9, 0xC8, 0xCA, 0xCB,
        0xCE, 0xCF, 0xD4, 0xD9, 0xDB, 0xDC, 0x152, 0xAB, 0xBB]),
     langPrefix = ''fr'', isDefault = False\<rparr>"

definition Chinese :: language where
  "Chinese = \<lparr>name = ''Chinese'', pattern = (\<lambda>c. 0x4E00 \<le> c \<and> c \<le> 0x9FFF),
     langPrefix = ''zh'', isDefault = False\<rparr>"

definition Japanese :: language where
  "Japanese = \<lparr>name = ''Japanese'',
     pattern = (\<lambda>c. (0x3040 \<le> c \<and> c \<le> 0x309F) \<or> (0x30A0 \<le> c \<and> c \<le> 0x30FF)),
     langPrefix = ''ja'', isDefault = False\<rparr>"

definition Korean :: language where
  "Korean = \<lparr>name = ''Korean'', pattern = (\<lambda>c. 0xAC00 \<le> c \<and> c \<le> 0xD7AF),
     langPrefix = ''ko'', isDefault = False\<rparr>"

definition Arabic :: language where
  "Arabic = \<lparr>name = ''Arabic'', pattern = (\<lambda>c. 0x600 \<le> c \<and> c \<le> 0x6FF),
     langPrefix = ''ar'', isDefault = False\<rparr>"

definition Russian :: language where
  "Russian = \<lparr>name = ''Russian'', pattern = (\<lambda>c. 0x400 \<le> c \<and> c \<le> 0x4FF),
     langPrefix = ''ru'', isDefault = False\<rparr>"

definition English :: language where
  "English = \<lparr>name = ''English'',
     pattern = (\<lambda>c. (97 \<le> c \<and> c \<le> 122) \<or> (65 \<le> c \<and> c \<le> 90)),
     langPrefix = ''en'', isDefault = True\<rparr>"

definition TTS_LANGUAGES :: "language list" where
  "TTS_LANGUAGES = [German, French, Chinese, Japanese, Korean, Arabic, Russian, English]"

text \<open>\<^verbatim>\<open>(text.match(lang.pattern) || []).length\<close>\<close>

definition match_count :: "language \<Rightarrow> jsstring \<Rightarrow> nat" where
  "match_count l t = length (filter (pattern l) t)"

text \<open>
  An entry of \<^verbatim>\<open>counts\<close>: the language with its \<^verbatim>\<open>count\<close>. The reducer of
  \<^verbatim>\<open>nonDefault.reduce((a, b) => a.count > b.count ? a : b)\<close> is \<open>higher\<close>; without an
  initial value \<^verbatim>\<open>reduce\<close> starts from the first entry.
\<close>

type_synonym counted = "language \<times> nat"

definition counts :: "language list \<Rightarrow> jsstring \<Rightarrow> counted list" where
  "counts langs t = map (\<lambda>l. (l, match_count l t)) langs"

definition higher :: "counted \<Rightarrow> counted \<Rightarrow> counted" where
  "higher a b = (if snd a > snd b then a else b)"

text \<open>
  The value of \<^verbatim>\<open>detected\<close> in \<^verbatim>\<open>pickVoiceForText\<close>; \<open>None\<close> is \<^verbatim>\<open>undefined\<close>
  (an empty table).
\<close>

definition detect :: "language list \<Rightarrow> jsstring \<Rightarrow> counted option" where
  "detect langs t =
     (let cs = counts langs t;
          nonDefault = filter (\<lambda>l. \<not> isDefault (fst l) \<and> snd l > 0) cs;
          defaultLang = find (\<lambda>l. isDefault (fst l)) cs
      in case nonDefault of
           a # rest \<Rightarrow>
             (let topNonDefault = foldl higher a rest
              in case defaultLang of
                   None \<Rightarrow> Some topNonDefault
                 | Some d \<Rightarrow> if snd topNonDefault > snd d then Some topNonDefault else Some d)
         | [] \<Rightarrow>
             (case defaultLang of
                Some d \<Rightarrow> Some d
              | None \<Rightarrow> (case cs of [] \<Rightarrow> None | c # _ \<Rightarrow> Some c)))"

record voice =
  voice_name :: jsstring
  lang :: jsstring

definition preferGoogle :: "voice list \<Rightarrow> voice option" where
  "preferGoogle voiceList =
     (case find (\<lambda>v. str_includes (toLowerCase (voice_name v)) (lit ''google'')) voiceList of
        Some v \<Rightarrow> Some v
      | None \<Rightarrow> (case voiceList of [] \<Rightarrow> None | v # _ \<Rightarrow> Some v))"

text \<open>
  \<open>pickVoiceForText voices t\<close> with \<open>voices\<close> the result of
  \<^verbatim>\<open>speechSynthesis.getVoices()\<close>; \<open>None\<close> is \<^verbatim>\<open>null\<close>. With the table above
  \<open>detect\<close> is never undefined (see \<open>detect_defined\<close>); for an empty table reading
  \<^verbatim>\<open>detected.name\<close> would throw, which is the outer \<open>None\<close> here.
\<close>

definition pickVoiceForText :: "voice list \<Rightarrow> jsstring \<Rightarrow> voice option option" where
  "pickVoiceForText voices t =
     (if voices = [] then Some None
      else case detect TTS_LANGUAGES t of
        None \<Rightarrow> None
      | Some detected \<Rightarrow>
          (let matchingVoices =
                 filter (\<lambda>v. startsWith (lang v) (lit (langPrefix (fst detected)))) voices
           in if matchingVoices \<noteq> [] then Some (preferGoogle matchingVoices)
              else let enVoices = filter (\<lambda>v. startsWith (lang v) (lit ''en'')) voices
                   in if enVoices \<noteq> [] then Some (preferGoogle enVoices)
                      else Some (Some (hd voices))))"

section \<open>Speech engine: the transcript cursor (content script, TTS)\<close>

type_synonym elem = nat

text \<open>
  What the speech engine reads of the page. A \<open>response_body\<close> is an element of class
  \<^verbatim>\<open>font-claude-response-body\<close>: its \<^verbatim>\<open>innerText\<close>, its \<^verbatim>\<open>textContent\<close> and the inline
  \<^verbatim>\<open>style.height\<close> and \<^verbatim>\<open>style.opacity\<close> of its ancestors below the element being
  processed. A \<open>response_el\<close> is an element handed to \<^verbatim>\<open>processResponseElement\<close> or read
  by \<^verbatim>\<open>toggle\<close>: its \<^verbatim>\<open>innerText\<close>, the matches of
  \<^verbatim>\<open>:scope > div > .standard-markdown .font-claude-response-body\<close> and the matches of
  \<^verbatim>\<open>.font-claude-response-body\<close>, both in document order.
\<close>

record style =
  height :: string
  opacity :: string

record response_body =
  body_innerText :: jsstring
  body_textContent :: jsstring
  ancestor_styles :: "style list"

record response_el =
  innerText :: jsstring
  markdownBlocks :: "response_body list"
  allBodies :: "response_body list"

text \<open>
  A snapshot of the page at a mutation callback: the element matching
  \<^verbatim>\<open>[data-is-streaming="true"]\<close> (its identity) with its \<^verbatim>\<open>.progressive-markdown\<close>
  descendant, the matches of \<^verbatim>\<open>[data-is-streaming="false"] .font-claude-response\<close>, and
  the matches of \<^verbatim>\<open>.font-claude-response\<close>.
\<close>

record tts_dom =
  streaming :: "(elem \<times> response_el option) option"
  completed :: "response_el list"
  responses :: "response_el list"

text \<open>
  The fields of the \<^verbatim>\<open>TTS\<close> object that the cursor logic uses. \<open>speakTimeout\<close> says
  whether a debounce timer is pending; \<open>spoken\<close> lists the texts handed to
  \<^verbatim>\<open>speechSynthesis.speak\<close>.
\<close>

record tts =
  enabled :: bool
  speaking :: bool
  lastSpokenLength :: nat
  unlocked :: bool
  pendingText :: jsstring
  speakTimeout :: bool
  lastStreamingElement :: "elem option"
  spoken :: "jsstring list"

definition TTS_initial :: tts where
  "TTS_initial = \<lparr>enabled = False, speaking = False, lastSpokenLength = 0, unlocked = False,
     pendingText = [], speakTimeout = False, lastStreamingElement = None, spoken = []\<rparr>"

text \<open>\<^verbatim>\<open>el.innerText || el.textContent\<close>\<close>

definition body_text :: "response_body \<Rightarrow> jsstring" where
  "body_text b = (if body_innerText b \<noteq> [] then body_innerText b else body_textContent b)"

text \<open>The filter of the fallback branch: no ancestor is collapsed.\<close>

definition visible :: "response_body \<Rightarrow> bool" where
  "visible b = (\<not> list_ex (\<lambda>parent. height parent = ''0px'' \<or> opacity parent = ''0'')
     (ancestor_styles b))"

text \<open>The value of \<^verbatim>\<open>text\<close> in \<^verbatim>\<open>processResponseElement\<close> after normalisation.\<close>

definition response_text :: "response_el \<Rightarrow> jsstring" where
  "response_text element =
     (let text = (if markdownBlocks element \<noteq> []
                  then join_space (map body_text (markdownBlocks element))
                  else join_space (map body_text (filter visible (allBodies element))))
      in trim (collapse_spaces text))"

definition processResponseElement :: "response_el \<Rightarrow> tts \<Rightarrow> tts" where
  "processResponseElement element s =
     (let text = response_text element
      in if length text > lastSpokenLength s
         then s\<lparr>lastSpokenLength := length text,
                pendingText := pendingText s @ drop (lastSpokenLength s) text,
                speakTimeout := True\<rparr>
         else s)"

text \<open>The callback of the \<^verbatim>\<open>MutationObserver\<close> installed by \<^verbatim>\<open>startObserving\<close>.\<close>

definition onMutation :: "tts_dom \<Rightarrow> tts \<Rightarrow> tts" where
  "onMutation d s =
     (if \<not> enabled s then s
      else case streaming d of
        Some (st, progressive) \<Rightarrow>
          (let s1 = (if lastStreamingElement s \<noteq> Some st
                     then s\<lparr>lastSpokenLength := 0, pendingText := [], speakTimeout := False,
                            lastStreamingElement := Some st\<rparr>
                     else s)
           in case progressive of
                Some p \<Rightarrow> processResponseElement p s1
              | None \<Rightarrow> s1)
      | None \<Rightarrow>
          (let s1 = s\<lparr>lastStreamingElement := None\<rparr>
           in if completed d \<noteq> []
              then (let latest = last (completed d)
                    in if length (innerText latest) > lastSpokenLength s1
                       then processResponseElement latest s1 else s1)
              else s1))"

definition speak :: "jsstring \<Rightarrow> tts \<Rightarrow> tts" where
  "speak t s =
     (if trim t = [] then s
      else if \<not> unlocked s then s
      else s\<lparr>spoken := spoken s @ [t]\<rparr>)"

text \<open>The debounce timer armed by \<^verbatim>\<open>processResponseElement\<close> fires.\<close>

definition onSpeakTimeout :: "tts \<Rightarrow> tts" where
  "onSpeakTimeout s =
     (let s1 = s\<lparr>speakTimeout := False\<rparr>
      in if trim (pendingText s1) \<noteq> [] then (speak (pendingText s1) s1)\<lparr>pendingText := []\<rparr>
         else s1)"

definition toggle :: "tts_dom \<Rightarrow> tts \<Rightarrow> tts" where
  "toggle d s =
     (let s1 = s\<lparr>unlocked := True, enabled := \<not> enabled s\<rparr>;
          s2 = (if \<not> enabled s1 then s1\<lparr>speaking := False\<rparr>
                else let s3 = (case streaming d of
                                 Some (st, progressive) \<Rightarrow>
                                   (case progressive of
                                      Some p \<Rightarrow> s1\<lparr>lastSpokenLength := length (innerText p),
                                                   lastStreamingElement := Some st\<rparr>
                                    | None \<Rightarrow> s1)
                               | None \<Rightarrow>
                                   (if responses d \<noteq> []
                                    then s1\<lparr>lastSpokenLength :=
                                             length (innerText (last (responses d)))\<rparr>
                                    else s1))
                     in s3\<lparr>spoken := spoken s3 @ [lit ''Voice enabled'']\<rparr>)
      in s2\<lparr>pendingText := []\<rparr>)"

text \<open>The console command \<^verbatim>\<open>voice(state)\<close>: \<^verbatim>\<open>TTS.enabled = !!args[0]\<close>.\<close>

definition setEnabled :: "bool \<Rightarrow> tts \<Rightarrow> tts" where
  "setEnabled b s = s\<lparr>enabled := b\<rparr>"

definition stop :: "tts \<Rightarrow> tts" where
  "stop s = s\<lparr>speaking := False, lastSpokenLength := 0\<rparr>"

text \<open>The \<^verbatim>\<open>popstate\<close> listener calls \<open>reset\<close>.\<close>

definition reset :: "tts \<Rightarrow> tts" where
  "reset s = (stop s)\<lparr>lastSpokenLength := 0\<rparr>"

subsection \<open>Example inputs for the speech engine\<close>

definition hello_response :: response_el where
  "hello_response =
     \<lparr>innerText = lit ''hello'', markdownBlocks = [],
      allBodies = [\<lparr>body_innerText = lit ''hello'', body_textContent = lit ''hello'',
                    ancestor_styles = []\<rparr>]\<rparr>"

text \<open>No response is streaming; one finished response is on screen.\<close>

definition idle_dom :: tts_dom where
  "idle_dom = \<lparr>streaming = None, completed = [hello_response], responses = [hello_response]\<rparr>"

text \<open>Element \<open>7\<close> is streaming and shows \<open>hello\<close> so far.\<close>

definition streaming_dom :: tts_dom where
  "streaming_dom = \<lparr>streaming = Some (7, Some hello_response), completed = [],
     responses = [hello_response]\<rparr>"

text \<open>Element \<open>8\<close> has just started streaming and has no markdown block yet.\<close>

definition fresh_stream_dom :: tts_dom where
  "fresh_stream_dom = \<lparr>streaming = Some (8, None), completed = [hello_response],
     responses = [hello_response]\<rparr>"

text \<open>Speech is on and the engine is in the middle of the turn of element \<open>7\<close>.\<close>

definition mid_turn :: tts where
  "mid_turn = onMutation streaming_dom (setEnabled True TTS_initial)"

section \<open>The page as the content script sees it\<close>

text \<open>
  \<open>matches p sel\<close> lists the elements that match the selector \<open>sel\<close>, in document
  order; \<open>unsupported p sel\<close> says that the browser rejects \<open>sel\<close>, so that
  \<^verbatim>\<open>querySelector\<close> throws; \<open>body\<close> is \<^verbatim>\<open>document.body\<close>. \<open>atob\<close> is the browser's
  base64 decoder: \<open>None\<close> when it throws.
\<close>

record page =
  matches :: "string \<Rightarrow> elem list"
  unsupported :: "string \<Rightarrow> bool"
  disabled :: "elem \<Rightarrow> bool"
  textContent :: "elem \<Rightarrow> jsstring"
  body :: elem
  atob :: "jsstring \<Rightarrow> jsstring option"

datatype js_error =
    JsError string
  | TypeError
  | InvalidCharacterError
  | SyntaxError string

definition querySelectorAll :: "page \<Rightarrow> string \<Rightarrow> js_error + elem list" where
  "querySelectorAll p sel = (if unsupported p sel then Inl (SyntaxError sel) else Inr (matches p sel))"

definition querySelector :: "page \<Rightarrow> string \<Rightarrow> js_error + elem option" where
  "querySelector p sel =
     (if unsupported p sel then Inl (SyntaxError sel)
      else Inr (case matches p sel of [] \<Rightarrow> None | el # _ \<Rightarrow> Some el))"

section \<open>Messages, files and the configuration of the content script\<close>

record config =
  attributionPrefix :: bool
  autoSend :: bool
  messageDelay :: nat
  attachmentDelay :: nat
  showNotifications :: bool
  debug :: bool

definition CONFIG :: config where
  "CONFIG = \<lparr>attributionPrefix = True, autoSend = True, messageDelay = 500,
     attachmentDelay = 2000, showNotifications = True, debug = True\<rparr>"

text \<open>
  A message from the background script. Every field but \<open>type\<close> may be absent; the
  fields that are present are taken to be strings.
\<close>

record message =
  type :: jsstring
  sender :: "jsstring option"
  content_type :: "jsstring option"
  msg_text :: "jsstring option"
  caption :: "jsstring option"
  file_data :: "jsstring option"
  file_name :: "jsstring option"
  mime_type :: "jsstring option"

text \<open>\<^verbatim>\<open>new File([bytes], filename, { type: mimeType })\<close>\<close>

record js_file =
  file_bytes :: jsstring
  file_filename :: "jsstring option"
  file_mimeType :: "jsstring option"

text \<open>An entry of \<^verbatim>\<open>pendingAttachments\<close>.\<close>

record attachment =
  att_base64Data :: jsstring
  att_filename :: "jsstring option"
  att_mimeType :: "jsstring option"
  att_sender :: "jsstring option"

section \<open>Effects and asynchronous functions\<close>

text \<open>
  What the content script does to the page and the console is recorded as a list of
  events. The \<open>Called_\<close> events mark the entry of a function; \<open>Sleep ms\<close> marks
  \<^verbatim>\<open>await sleep(ms)\<close>.
  The \<^verbatim>\<open>debug(...)\<close> lines are not recorded; the \<^verbatim>\<open>console.group\<close> scans of the dump
  functions are.
\<close>

datatype dom_event =
    InputEvent string string jsstring
  | Event string
  | KeyboardEvent string string
  | DragEvent string js_file

datatype event =
    Called_attachFile jsstring "jsstring option" "jsstring option"
  | Called_injectText "jsstring option"
  | Called_clickSend
  | Called_accumulateAttachment
  | Called_flushAttachments
  | Focus elem
  | SetTextContent elem jsstring
  | SelectEnd elem
  | Dispatch elem dom_event
  | SetFiles elem js_file
  | Click elem
  | Toast jsstring string
  | ErrorToast js_error
  | ConsoleGroup string
  | ConsoleFound string "elem list"
  | ConsoleGroupEnd
  | Sleep nat

text \<open>The state the functions below read and write.\<close>

record world =
  page :: page
  pendingAttachments :: "attachment list"

text \<open>
  The state of a call of an \<^verbatim>\<open>async\<close> function when control returns to the event
  loop: it has returned (\<open>Done\<close>), it has thrown (\<open>Fail\<close>), or it is suspended at an
  \<^verbatim>\<open>await sleep(ms)\<close> (\<open>Susp\<close>) with the rest of its body, which will run on the
  state it finds when the timer fires. Each carries the state left behind and the
  events recorded since the call started or was resumed. A synchronous function is one
  that never suspends.
\<close>

datatype 'a res =
    Done 'a world "event list"
  | Fail js_error world "event list"
  | Susp world "event list" "world \<Rightarrow> 'a res"

type_synonym 'a prog = "world \<Rightarrow> 'a res"

definition ret :: "'a \<Rightarrow> 'a prog" where
  "ret x = (\<lambda>w. Done x w [])"

definition throw :: "js_error \<Rightarrow> 'a prog" where
  "throw e = (\<lambda>w. Fail e w [])"

definition emit :: "event \<Rightarrow> unit prog" where
  "emit e = (\<lambda>w. Done () w [e])"

definition sleep :: "nat \<Rightarrow> unit prog" where
  "sleep ms = (\<lambda>w. Susp w [Sleep ms] (\<lambda>w'. Done () w' []))"

text \<open>\<open>after evs r\<close>: the events \<open>evs\<close> were recorded before those of \<open>r\<close>.\<close>

primrec after :: "event list \<Rightarrow> 'a res \<Rightarrow> 'a res" where
  "after evs (Done x w out) = Done x w (evs @ out)"
| "after evs (Fail e w out) = Fail e w (evs @ out)"
| "after evs (Susp w out k) = Susp w (evs @ out) k"

text \<open>Sequencing: \<^verbatim>\<open>const x = [await] m; f(x)\<close>.\<close>

primrec bindr :: "'a res \<Rightarrow> ('a \<Rightarrow> 'b prog) \<Rightarrow> 'b res" where
  "bindr (Done x w out) f = after out (f x w)"
| "bindr (Fail e w out) f = Fail e w out"
| "bindr (Susp w out k) f = Susp w out (\<lambda>w'. bindr (k w') f)"

definition andThen :: "'a prog \<Rightarrow> ('a \<Rightarrow> 'b prog) \<Rightarrow> 'b prog" where
  "andThen m f = (\<lambda>w. bindr (m w) f)"

text \<open>\<^verbatim>\<open>try { m } catch (e) { h(e) }\<close>\<close>

primrec catchr :: "'a res \<Rightarrow> (js_error \<Rightarrow> 'a prog) \<Rightarrow> 'a res" where
  "catchr (Done x w out) h = Done x w out"
| "catchr (Fail e w out) h = after out (h e w)"
| "catchr (Susp w out k) h = Susp w out (\<lambda>w'. catchr (k w') h)"

definition try_catch :: "'a prog \<Rightarrow> (js_error \<Rightarrow> 'a prog) \<Rightarrow> 'a prog" where
  "try_catch m h = (\<lambda>w. catchr (m w) h)"

text \<open>A value computed from the page, or the exception it throws.\<close>

definition on_page :: "(page \<Rightarrow> js_error + 'a) \<Rightarrow> 'a prog" where
  "on_page f = (\<lambda>w. case f (page w) of Inl e \<Rightarrow> Fail e w [] | Inr x \<Rightarrow> Done x w [])"

text \<open>
  Running a call to its end when nothing else touches the state while it sleeps: the
  outcome, the final state and all the events in order.
\<close>

primrec exec :: "'a res \<Rightarrow> (js_error + 'a) \<times> world \<times> event list" where
  "exec (Done x w out) = (Inr x, w, out)"
| "exec (Fail e w out) = (Inl e, w, out)"
| "exec (Susp w out k) = (case exec (k w) of (r, w', evs) \<Rightarrow> (r, w', out @ evs))"

section \<open>DOM locators (content script)\<close>

text \<open>
  The scans of \<^verbatim>\<open>dumpInputCandidates\<close> and \<^verbatim>\<open>dumpButtonCandidates\<close>: a console group
  with one line for each selector of the debug list that matches something. A selector
  the browser rejects throws out of the scan.
\<close>

fun scan :: "page \<Rightarrow> string list \<Rightarrow> event list \<times> js_error option" where
  "scan p [] = ([], None)"
| "scan p (selector # selectors) =
     (if unsupported p selector then ([], Some (SyntaxError selector))
      else case scan p selectors of
        (lines, r) \<Rightarrow>
          ((if matches p selector \<noteq> [] then [ConsoleFound selector (matches p selector)]
            else []) @ lines, r))"

definition dump :: "string \<Rightarrow> string list \<Rightarrow> unit prog" where
  "dump label selectors =
     (\<lambda>w. case scan (page w) selectors of
        (lines, None) \<Rightarrow> Done () w (ConsoleGroup label # lines @ [ConsoleGroupEnd])
      | (lines, Some e) \<Rightarrow> Fail e w (ConsoleGroup label # lines))"

definition INPUT_DEBUG_SELECTORS :: "string list" where
  "INPUT_DEBUG_SELECTORS =
     [''[contenteditable=\"true\"]'', ''[data-placeholder]'', ''.ProseMirror'', ''textarea'',
      ''[role=\"textbox\"]'', ''[data-testid*=\"input\"]'', ''[data-testid*=\"composer\"]'']"

definition dumpInputCandidates :: "unit prog" where
  "dumpInputCandidates =
     dump ''[Claude Bridge] DOM Scan - Input Field Candidates'' INPUT_DEBUG_SELECTORS"

definition BUTTON_DEBUG_SELECTORS :: "string list" where
  "BUTTON_DEBUG_SELECTORS =
     [''button[type=\"submit\"]'', ''button[aria-label*=\"send\" i]'',
      ''button[aria-label*=\"Send\" i]'', ''button[data-testid*=\"send\"]'',
      ''[role=\"button\"]'']"

definition dumpButtonCandidates :: "unit prog" where
  "dumpButtonCandidates =
     dump ''[Claude Bridge] DOM Scan - Send Button Candidates'' BUTTON_DEBUG_SELECTORS"

text \<open>
  The loop \<^verbatim>\<open>for (const selector of selectors) { const el = document.querySelector(selector);
  if (el) return el; }\<close>: the first element of the first selector that matches, \<open>None\<close>
  when the loop falls through; an exception of \<^verbatim>\<open>querySelector\<close> leaves the loop.
\<close>

fun first_match :: "page \<Rightarrow> string list \<Rightarrow> js_error + elem option" where
  "first_match p [] = Inr None"
| "first_match p (selector # selectors) =
     (case querySelector p selector of
        Inl e \<Rightarrow> Inl e
      | Inr (Some el) \<Rightarrow> Inr (Some el)
      | Inr None \<Rightarrow> first_match p selectors)"

text \<open>
  The loop of \<^verbatim>\<open>getSendButton\<close>: the body is inside \<^verbatim>\<open>try\<close>, and an element that is
  disabled does not end the loop.
\<close>

fun first_enabled :: "page \<Rightarrow> string list \<Rightarrow> elem option" where
  "first_enabled p [] = None"
| "first_enabled p (selector # selectors) =
     (case querySelector p selector of
        Inl e \<Rightarrow> first_enabled p selectors
      | Inr (Some el) \<Rightarrow> if \<not> disabled p el then Some el else first_enabled p selectors
      | Inr None \<Rightarrow> first_enabled p selectors)"

definition INPUT_SELECTORS :: "string list" where
  "INPUT_SELECTORS =
     [''[contenteditable=\"true\"][data-placeholder]'',
      ''div[contenteditable=\"true\"].ProseMirror'',
      ''div.ProseMirror[contenteditable=\"true\"]'',
      ''[data-testid=\"composer-input\"]'',
      ''[contenteditable=\"true\"]'']"

definition SEND_SELECTORS :: "string list" where
  "SEND_SELECTORS =
     [''button[aria-label=\"Send message\"]'',
      ''button[aria-label=\"Send Message\"]'',
      ''button[data-testid=\"send-button\"]'',
      ''button:has(svg[data-icon=\"arrow-up\"])'',
      ''form button[type=\"submit\"]'',
      ''button[type=\"submit\"]'']"

definition DROP_SELECTORS :: "string list" where
  "DROP_SELECTORS =
     [''[data-drop-target=\"true\"]'', ''[data-testid=\"drop-zone\"]'', ''.drop-zone'',
      ''form'', ''main'']"

definition getInputField :: "elem option prog" where
  "getInputField =
     andThen (on_page (\<lambda>p. first_match p INPUT_SELECTORS)) (\<lambda>found.
       case found of
         Some el \<Rightarrow> ret (Some el)
       | None \<Rightarrow> andThen dumpInputCandidates (\<lambda>_. ret None))"

definition getSendButton :: "elem option prog" where
  "getSendButton =
     andThen (on_page (\<lambda>p. Inr (first_enabled p SEND_SELECTORS))) (\<lambda>found.
       case found of
         Some el \<Rightarrow> ret (Some el)
       | None \<Rightarrow> andThen dumpButtonCandidates (\<lambda>_. ret None))"

definition getDropZone :: "elem prog" where
  "getDropZone =
     andThen (on_page (\<lambda>p. first_match p DROP_SELECTORS)) (\<lambda>found.
       case found of
         Some el \<Rightarrow> ret el
       | None \<Rightarrow> on_page (\<lambda>p. Inr (body p)))"

definition getFileInput :: "elem option prog" where
  "getFileInput =
     andThen (on_page (\<lambda>p. querySelectorAll p ''input[type=\"file\"]'')) (\<lambda>inputs.
     andThen (on_page (\<lambda>p. Inr (find (\<lambda>input. \<not> disabled p input) inputs))) (\<lambda>usable.
       case usable of
         Some input \<Rightarrow> ret (Some input)
       | None \<Rightarrow> ret (case inputs of [] \<Rightarrow> None | input # _ \<Rightarrow> Some input)))"

section \<open>Injection and attachment (content script)\<close>

definition dispatchEvent :: "elem \<Rightarrow> dom_event \<Rightarrow> unit prog" where
  "dispatchEvent el ev = emit (Dispatch el ev)"

definition set_textContent :: "elem \<Rightarrow> jsstring \<Rightarrow> unit prog" where
  "set_textContent el t =
     (\<lambda>w. Done () (w\<lparr>page := (page w)\<lparr>textContent := (textContent (page w))(el := t)\<rparr>\<rparr>)
        [SetTextContent el t])"

text \<open>
  \<open>injectText\<close>. Its first statement reads \<^verbatim>\<open>text.slice\<close>, which throws when the
  argument is \<^verbatim>\<open>undefined\<close>.
\<close>

definition injectText :: "jsstring option \<Rightarrow> unit prog" where
  "injectText arg =
     andThen (emit (Called_injectText arg)) (\<lambda>_.
     case arg of
       None \<Rightarrow> throw TypeError
     | Some t \<Rightarrow>
         andThen getInputField (\<lambda>found.
         case found of
           None \<Rightarrow> throw (JsError ''Input field not found'')
         | Some input \<Rightarrow>
             andThen (emit (Focus input)) (\<lambda>_.
             andThen (on_page (\<lambda>p. Inr (textContent p input))) (\<lambda>existingText.
             let newText = (if existingText \<noteq> [] then existingText @ [10] @ t else t) in
             andThen (set_textContent input newText) (\<lambda>_.
             andThen (emit (SelectEnd input)) (\<lambda>_.
             andThen (dispatchEvent input (InputEvent ''input'' ''insertText'' t)) (\<lambda>_.
             andThen (dispatchEvent input (Event ''input'')) (\<lambda>_.
             andThen (dispatchEvent input (Event ''change'')) (\<lambda>_.
             andThen (dispatchEvent input (KeyboardEvent ''keydown'' ''a'')) (\<lambda>_.
             dispatchEvent input (KeyboardEvent ''keyup'' ''a'')))))))))))"

definition attachFile :: "jsstring \<Rightarrow> jsstring option \<Rightarrow> jsstring option \<Rightarrow> unit prog" where
  "attachFile base64Data filename mimeType =
     andThen (emit (Called_attachFile base64Data filename mimeType)) (\<lambda>_.
     andThen (on_page (\<lambda>p. case atob p base64Data of
                             None \<Rightarrow> Inl InvalidCharacterError
                           | Some bytes \<Rightarrow> Inr bytes)) (\<lambda>bytes.
     let file = \<lparr>file_bytes = bytes, file_filename = filename, file_mimeType = mimeType\<rparr> in
     andThen (try_catch
        (andThen getDropZone (\<lambda>dropZone.
         andThen (dispatchEvent dropZone (DragEvent ''dragenter'' file)) (\<lambda>_.
         andThen (sleep 50) (\<lambda>_.
         andThen (dispatchEvent dropZone (DragEvent ''dragover'' file)) (\<lambda>_.
         andThen (sleep 50) (\<lambda>_.
         dispatchEvent dropZone (DragEvent ''drop'' file)))))))
        (\<lambda>e. ret ())) (\<lambda>_.
     andThen (try_catch
        (andThen getFileInput (\<lambda>found.
         case found of
           Some fileInput \<Rightarrow>
             andThen (emit (SetFiles fileInput file)) (\<lambda>_.
             andThen (dispatchEvent fileInput (Event ''change'')) (\<lambda>_.
             dispatchEvent fileInput (Event ''input'')))
         | None \<Rightarrow> ret ()))
        (\<lambda>e. ret ())) (\<lambda>_.
     sleep 200))))"

definition clickSend :: "bool prog" where
  "clickSend =
     andThen (emit Called_clickSend) (\<lambda>_.
     andThen getSendButton (\<lambda>button.
     case button of
       Some b \<Rightarrow> andThen (emit (Click b)) (\<lambda>_. ret True)
     | None \<Rightarrow> ret False))"

definition showToast :: "config \<Rightarrow> jsstring \<Rightarrow> string \<Rightarrow> unit prog" where
  "showToast cfg msg kind = (if \<not> showNotifications cfg then ret () else emit (Toast msg kind))"

text \<open>\<^verbatim>\<open>showToast(`Error: ${err.message}`, 'error')\<close>\<close>

definition showErrorToast :: "config \<Rightarrow> js_error \<Rightarrow> unit prog" where
  "showErrorToast cfg err = (if \<not> showNotifications cfg then ret () else emit (ErrorToast err))"

section \<open>Attachment accumulation (content script)\<close>

text \<open>A number inside a template literal: its decimal digits.\<close>

fun show_nat :: "nat \<Rightarrow> jsstring" where
  "show_nat n = (if n < 10 then [48 + n] else show_nat (n div 10) @ [48 + n mod 10])"

declare show_nat.simps [simp del]

definition accumulateAttachment ::
  "config \<Rightarrow> jsstring \<Rightarrow> jsstring option \<Rightarrow> jsstring option \<Rightarrow> jsstring option \<Rightarrow> unit prog" where
  "accumulateAttachment cfg base64Data filename mimeType who =
     andThen (emit Called_accumulateAttachment) (\<lambda>_.
     andThen (\<lambda>w. Done () (w\<lparr>pendingAttachments := pendingAttachments w @
                [\<lparr>att_base64Data = base64Data, att_filename = filename,
                  att_mimeType = mimeType, att_sender = who\<rparr>]\<rparr>) []) (\<lambda>_.
     andThen (\<lambda>w. Done (length (pendingAttachments w)) w []) (\<lambda>n.
     showToast cfg ([0xD83D, 0xDCCE] @ lit '' Queued: '' @ interp filename @ lit '' from ''
        @ interp who @ lit '' ('' @ show_nat n @ lit '' pending)'') ''info'')))"

text \<open>
  The loop of \<open>flushAttachments\<close>, from the index \<open>i\<close>. The test
  \<^verbatim>\<open>i < pendingAttachments.length\<close> and the entry \<^verbatim>\<open>pendingAttachments[i]\<close> are read
  from the array as it is at each turn, after the sleeps of the turn before, so the
  number of turns is not fixed when the loop starts. \<open>fuel\<close> is the number of turns
  allowed; the result is \<open>None\<close> when they did not bring the loop to its end.
\<close>

primrec flush_from :: "nat \<Rightarrow> nat \<Rightarrow> unit option prog" where
  "flush_from 0 i =
     (\<lambda>w. if i < length (pendingAttachments w) then Done None w [] else Done (Some ()) w [])"
| "flush_from (Suc fuel) i =
     (\<lambda>w. if i < length (pendingAttachments w)
          then (let att = pendingAttachments w ! i in
                andThen (attachFile (att_base64Data att) (att_filename att) (att_mimeType att)) (\<lambda>_.
                andThen (sleep 200) (\<lambda>_.
                flush_from fuel (Suc i)))) w
          else Done (Some ()) w [])"

text \<open>
  \<open>flushAttachments\<close>: the count it returns and the emptying of the array
  (\<^verbatim>\<open>pendingAttachments.length = 0\<close>) also use the array as it is after the loop.
\<close>

definition flushAttachments :: "nat \<Rightarrow> nat option prog" where
  "flushAttachments fuel =
     andThen (emit Called_flushAttachments) (\<lambda>_.
     andThen (\<lambda>w. Done (length (pendingAttachments w)) w []) (\<lambda>n.
     if n = 0 then ret (Some 0)
     else andThen (flush_from fuel 0) (\<lambda>ended.
          case ended of
            None \<Rightarrow> ret None
          | Some u \<Rightarrow>
              (\<lambda>w. Done (Some (length (pendingAttachments w))) (w\<lparr>pendingAttachments := []\<rparr>) []))))"

section \<open>Message processing (content script)\<close>

definition processMessage :: "config \<Rightarrow> message \<Rightarrow> unit prog" where
  "processMessage cfg message =
     (if truthy (file_data message)
         \<and> content_type message \<in> {Some (lit ''file''), Some (lit ''image''), Some (lit ''voice_audio'')}
      then
        andThen (attachFile (interp (file_data message)) (file_name message) (mime_type message)) (\<lambda>_.
        andThen (showToast cfg ([0xD83D, 0xDCCE] @ lit '' '' @ interp (sender message)
                   @ lit '' attached: '' @ interp (file_name message)) ''info'') (\<lambda>_.
        if truthy (caption message) then
          (let textContent =
                 (if attributionPrefix cfg
                  then Some (lit ''['' @ interp (sender message) @ lit '']: ''
                             @ interp (caption message))
                  else caption message) in
           andThen (injectText textContent) (\<lambda>_.
           andThen (showToast cfg ([0xD83D, 0xDCAC] @ lit '' '' @ interp (sender message) @ lit '': ''
                      @ take 50 (interp (caption message)) @ lit ''...'') ''info'') (\<lambda>_.
           if autoSend cfg then
             andThen (sleep (attachmentDelay cfg)) (\<lambda>_.
             andThen clickSend (\<lambda>_. ret ()))
           else ret ())))
        else ret ()))
      else if content_type message = Some (lit ''text'')
           \<or> content_type message = Some (lit ''voice_transcribed'')
      then
        (let textContent =
               (if attributionPrefix cfg
                then Some (lit ''['' @ interp (sender message) @ lit '']: ''
                           @ interp (msg_text message))
                else msg_text message) in
         andThen (injectText textContent) (\<lambda>_.
         case msg_text message of
           None \<Rightarrow> throw TypeError
         | Some t \<Rightarrow>
             andThen (showToast cfg ([0xD83D, 0xDCAC] @ lit '' '' @ interp (sender message) @ lit '': ''
                        @ take 50 t @ lit ''...'') ''info'') (\<lambda>_.
             if autoSend cfg then
               andThen (sleep (messageDelay cfg)) (\<lambda>_.
               andThen clickSend (\<lambda>_. ret ()))
             else ret ())))
      else ret ())"

section \<open>The message queue and its worker (content script)\<close>

text \<open>
  The event loop runs one callback at a time. A call of \<^verbatim>\<open>processQueue\<close> that is
  suspended is a \<open>worker\<close>: it waits either for \<^verbatim>\<open>await processMessage(message)\<close>,
  holding the rest of that call, or for \<^verbatim>\<open>await sleep(300)\<close>. For the statements
  below each accepted message is numbered in the order of arrival, the worker carries
  the number of the message it dequeued, and the \<open>trace\<close> records, each with the number
  of the message it belongs to, the dequeuing of a message
  (\<^verbatim>\<open>messageQueue.shift()\<close> returning it) and every event of its processing.
\<close>

datatype worker =
    Await_processMessage nat "world \<Rightarrow> unit res"
  | Await_pause nat

datatype entry = Dequeued message | Effect event

record pipeline =
  messageQueue :: "(nat \<times> message) list"
  isProcessing :: bool
  workers :: "worker list"
  arrivals :: nat
  world :: world
  trace :: "(nat \<times> entry) list"

definition record_events :: "nat \<Rightarrow> event list \<Rightarrow> pipeline \<Rightarrow> pipeline" where
  "record_events i out pl = pl\<lparr>trace := trace pl @ map (\<lambda>e. (i, Effect e)) out\<rparr>"

text \<open>The end of one turn of the loop: \<^verbatim>\<open>await sleep(300)\<close>.\<close>

definition pause :: "nat \<Rightarrow> pipeline \<Rightarrow> pipeline" where
  "pause i pl = (record_events i [Sleep 300] pl)\<lparr>workers := workers pl @ [Await_pause i]\<rparr>"

text \<open>
  \<^verbatim>\<open>try { await processMessage(message); } catch (err) { ... showToast(...) }\<close>, given
  the state \<open>r\<close> of the call of \<^verbatim>\<open>processMessage\<close>.
\<close>

definition settle :: "config \<Rightarrow> nat \<Rightarrow> unit res \<Rightarrow> pipeline \<Rightarrow> pipeline" where
  "settle cfg i r pl =
     (case r of
        Susp w out k \<Rightarrow>
          (record_events i out (pl\<lparr>world := w\<rparr>))
            \<lparr>workers := workers pl @ [Await_processMessage i k]\<rparr>
      | Done u w out \<Rightarrow> pause i (record_events i out (pl\<lparr>world := w\<rparr>))
      | Fail err w out \<Rightarrow>
          (case exec (showErrorToast cfg err w) of
             (u, w', shown) \<Rightarrow> pause i (record_events i (out @ shown) (pl\<lparr>world := w'\<rparr>))))"

text \<open>The test of the \<^verbatim>\<open>while\<close> loop and, when it holds, the start of one turn.\<close>

definition loop :: "config \<Rightarrow> pipeline \<Rightarrow> pipeline" where
  "loop cfg pl =
     (case messageQueue pl of
        [] \<Rightarrow> pl\<lparr>isProcessing := False\<rparr>
      | (i, message) # rest \<Rightarrow>
          settle cfg i (processMessage cfg message (world pl))
            (pl\<lparr>messageQueue := rest, trace := trace pl @ [(i, Dequeued message)]\<rparr>))"

definition processQueue :: "config \<Rightarrow> pipeline \<Rightarrow> pipeline" where
  "processQueue cfg pl =
     (if isProcessing pl \<or> messageQueue pl = [] then pl
      else loop cfg (pl\<lparr>isProcessing := True\<rparr>))"

definition handleMessage :: "config \<Rightarrow> message \<Rightarrow> pipeline \<Rightarrow> pipeline" where
  "handleMessage cfg message pl =
     (if type message \<noteq> lit ''message'' then pl
      else processQueue cfg
             (pl\<lparr>messageQueue := messageQueue pl @ [(arrivals pl, message)],
                 arrivals := Suc (arrivals pl)\<rparr>))"

text \<open>A suspended call of \<^verbatim>\<open>processQueue\<close> is resumed by its timer.\<close>

definition resume :: "config \<Rightarrow> worker \<Rightarrow> pipeline \<Rightarrow> pipeline" where
  "resume cfg wk pl =
     (case wk of
        Await_processMessage i k \<Rightarrow> settle cfg i (k (world pl)) pl
      | Await_pause i \<Rightarrow> loop cfg pl)"

text \<open>
  What the event loop can run next: the delivery of a message from the background
  script, the timer of the \<open>n\<close>-th suspended worker, or the host page changing the
  document.
\<close>

datatype input = Deliver message | Timer nat | HostUpdate page

definition step :: "config \<Rightarrow> pipeline \<Rightarrow> input \<Rightarrow> pipeline" where
  "step cfg pl inp =
     (case inp of
        Deliver message \<Rightarrow> handleMessage cfg message pl
      | Timer n \<Rightarrow>
          (if n < length (workers pl)
           then resume cfg (workers pl ! n)
                  (pl\<lparr>workers := take n (workers pl) @ drop (Suc n) (workers pl)\<rparr>)
           else pl)
      | HostUpdate p \<Rightarrow> pl\<lparr>world := (world pl)\<lparr>page := p\<rparr>\<rparr>)"

definition run :: "config \<Rightarrow> input list \<Rightarrow> pipeline \<Rightarrow> pipeline" where
  "run cfg inps pl = foldl (step cfg) pl inps"

text \<open>The content script when it is loaded on the page \<open>p\<close>.\<close>

definition start :: "page \<Rightarrow> pipeline" where
  "start p = \<lparr>messageQueue = [], isProcessing = False, workers = [], arrivals = 0,
     world = \<lparr>page = p, pendingAttachments = []\<rparr>, trace = []\<rparr>"

subsection \<open>Example pages\<close>

text \<open>
  A page with an editor (element \<open>11\<close>, found only by the last input selector), an
  enabled submit button (\<open>12\<close>), a form (\<open>13\<close>) and one file input (\<open>14\<close>). The browser
  rejects the \<^verbatim>\<open>:has()\<close> selector, and its \<^verbatim>\<open>atob\<close> is given on one input:
  \<^verbatim>\<open>aGk=\<close> decodes to \<^verbatim>\<open>hi\<close>.
\<close>

definition chat_page :: page where
  "chat_page =
     \<lparr>matches = (\<lambda>sel. if sel = ''[contenteditable=\"true\"]'' then [11]
                       else if sel = ''button[type=\"submit\"]'' then [12]
                       else if sel = ''form'' then [13]
                       else if sel = ''input[type=\"file\"]'' then [14]
                       else []),
      unsupported = (\<lambda>sel. sel = ''button:has(svg[data-icon=\"arrow-up\"])''),
      disabled = (\<lambda>el. False),
      textContent = (\<lambda>el. []),
      body = 10,
      atob = (\<lambda>s. if s = lit ''aGk='' then Some (lit ''hi'') else None)\<rparr>"

text \<open>The same page with \<^verbatim>\<open>draft\<close> already typed into the editor.\<close>

definition draft_page :: page where
  "draft_page = chat_page\<lparr>textContent := (\<lambda>el. if el = 11 then lit ''draft'' else [])\<rparr>"

text \<open>A page on which no selector matches anything.\<close>

definition blank_page :: page where
  "blank_page = chat_page\<lparr>matches := (\<lambda>sel. [])\<rparr>"

text \<open>The example page while its send button is disabled.\<close>

definition busy_page :: page where
  "busy_page = chat_page\<lparr>disabled := (\<lambda>el. el = 12)\<rparr>"

definition world_of :: "page \<Rightarrow> world" where
  "world_of p = \<lparr>page = p, pendingAttachments = []\<rparr>"

section \<open>Reading the record of events\<close>

text \<open>The events of a call run to its end.\<close>

definition events :: "'a res \<Rightarrow> event list" where
  "events r = snd (snd (exec r))"

text \<open>
  \<open>is_call\<close> picks the function entries; \<open>is_send\<close> picks what belongs to a send
  action: the call of \<open>clickSend\<close> and the click on the button; \<open>inert\<close> events are
  neither a function entry nor a click.
\<close>

fun is_call :: "event \<Rightarrow> bool" where
  "is_call (Called_attachFile b f m) = True"
| "is_call (Called_injectText t) = True"
| "is_call Called_clickSend = True"
| "is_call Called_accumulateAttachment = True"
| "is_call Called_flushAttachments = True"
| "is_call e = False"

fun is_send :: "event \<Rightarrow> bool" where
  "is_send Called_clickSend = True"
| "is_send (Click b) = True"
| "is_send e = False"

definition inert :: "event \<Rightarrow> bool" where
  "inert e = (\<not> is_call e \<and> \<not> is_send e)"

subsection \<open>Example messages\<close>

text \<open>A photo without a caption, the same photo with a caption, a text and a sticker.\<close>

definition photo :: message where
  "photo = \<lparr>type = lit ''message'', sender = Some (lit ''Ana''),
     content_type = Some (lit ''image''), msg_text = None, caption = None,
     file_data = Some (lit ''aGk=''), file_name = Some (lit ''a.png''),
     mime_type = Some (lit ''image/png'')\<rparr>"

definition captioned_photo :: message where
  "captioned_photo = photo\<lparr>caption := Some (lit ''look'')\<rparr>"

definition hello :: message where
  "hello = \<lparr>type = lit ''message'', sender = Some (lit ''Ana''),
     content_type = Some (lit ''text''), msg_text = Some (lit ''hello''), caption = None,
     file_data = None, file_name = None, mime_type = None\<rparr>"

definition sticker :: message where
  "sticker = \<lparr>type = lit ''message'', sender = Some (lit ''Ana''),
     content_type = Some (lit ''sticker''), msg_text = None, caption = None,
     file_data = Some (lit ''aGk=''), file_name = Some (lit ''s.webp''),
     mime_type = Some (lit ''image/webp'')\<rparr>"

section \<open>Reading the trace of the pipeline\<close>

fun worker_index :: "worker \<Rightarrow> nat" where
  "worker_index (Await_processMessage i k) = i"
| "worker_index (Await_pause i) = i"

text \<open>The messages dequeued so far, each with its number, in the order of dequeuing.\<close>

fun dequeued :: "(nat \<times> entry) list \<Rightarrow> (nat \<times> message) list" where
  "dequeued [] = []"
| "dequeued ((i, Dequeued m) # tr) = (i, m) # dequeued tr"
| "dequeued ((i, Effect e) # tr) = dequeued tr"

text \<open>
  The messages delivered to \<open>handleMessage\<close> by a list of inputs, and those of them it
  accepts, in the order of arrival.
\<close>

fun deliveries :: "input list \<Rightarrow> message list" where
  "deliveries [] = []"
| "deliveries (Deliver m # inps) = m # deliveries inps"
| "deliveries (Timer n # inps) = deliveries inps"
| "deliveries (HostUpdate p # inps) = deliveries inps"

definition accepted :: "input list \<Rightarrow> message list" where
  "accepted inps = filter (\<lambda>m. type m = lit ''message'') (deliveries inps)"

text \<open>
  The invariant of the queue, for the list \<open>acc\<close> of the messages accepted so far:
  the dequeued messages followed by the queue are the accepted messages with their
  numbers; the numbers in the trace never go down and are numbers of dequeued messages;
  a suspended worker belongs to the last dequeued message; there is at most one worker,
  and there is one exactly when \<open>isProcessing\<close> is set; and the queue is empty when it
  is not set.
\<close>

definition ordered :: "message list \<Rightarrow> pipeline \<Rightarrow> bool" where
  "ordered acc pl =
     (arrivals pl = length acc
      \<and> dequeued (trace pl) @ messageQueue pl = zip [0..<length acc] acc
      \<and> sorted (map fst (trace pl))
      \<and> list_all (\<lambda>i. i < length (dequeued (trace pl))) (map fst (trace pl))
      \<and> list_all (\<lambda>wk. Suc (worker_index wk) = length (dequeued (trace pl))) (workers pl)
      \<and> length (workers pl) \<le> 1
      \<and> isProcessing pl = (workers pl \<noteq> [])
      \<and> (isProcessing pl \<or> messageQueue pl = []))"

text \<open>
  A call keeps \<open>I\<close> and \<open>P\<close> when every state it leaves behind satisfies \<open>I\<close> and every
  event it records satisfies \<open>P\<close>, as long as the states it is resumed on satisfy \<open>I\<close>.
\<close>

inductive keeps :: "(world \<Rightarrow> bool) \<Rightarrow> (event \<Rightarrow> bool) \<Rightarrow> 'a res \<Rightarrow> bool"
  for I :: "world \<Rightarrow> bool" and P :: "event \<Rightarrow> bool" where
  keeps_Done: "I w \<Longrightarrow> list_all P out \<Longrightarrow> keeps I P (Done x w out)"
| keeps_Fail: "I w \<Longrightarrow> list_all P out \<Longrightarrow> keeps I P (Fail e w out)"
| keeps_Susp: "I w \<Longrightarrow> list_all P out \<Longrightarrow> (\<And>w'. I w' \<Longrightarrow> keeps I P (k w'))
     \<Longrightarrow> keeps I P (Susp w out k)"

definition safe :: "(world \<Rightarrow> bool) \<Rightarrow> (event \<Rightarrow> bool) \<Rightarrow> 'a prog \<Rightarrow> bool" where
  "safe I P m = (\<forall>w. I w \<longrightarrow> keeps I P (m w))"

text \<open>Nothing is queued, and the event is not a call of the accumulator.\<close>

definition nothing_pending :: "world \<Rightarrow> bool" where
  "nothing_pending w = (pendingAttachments w = [])"

definition no_accumulator :: "event \<Rightarrow> bool" where
  "no_accumulator e = (e \<noteq> Called_accumulateAttachment \<and> e \<noteq> Called_flushAttachments)"

text \<open>
  The state in the middle of a turn of the loop for the message \<open>i\<close>: the worker is
  running, so it is not in \<open>workers\<close>.
\<close>

definition in_turn :: "message list \<Rightarrow> nat \<Rightarrow> pipeline \<Rightarrow> bool" where
  "in_turn acc i pl =
     (arrivals pl = length acc
      \<and> dequeued (trace pl) @ messageQueue pl = zip [0..<length acc] acc
      \<and> sorted (map fst (trace pl))
      \<and> list_all (\<lambda>j. j < Suc i) (map fst (trace pl))
      \<and> Suc i = length (dequeued (trace pl))
      \<and> workers pl = [] \<and> isProcessing pl)"

text \<open>The state at the test of the loop.\<close>

definition at_test :: "message list \<Rightarrow> pipeline \<Rightarrow> bool" where
  "at_test acc pl =
     (arrivals pl = length acc
      \<and> dequeued (trace pl) @ messageQueue pl = zip [0..<length acc] acc
      \<and> sorted (map fst (trace pl))
      \<and> list_all (\<lambda>j. j < length (dequeued (trace pl))) (map fst (trace pl))
      \<and> workers pl = [] \<and> isProcessing pl)"

text \<open>
  The invariant of the pipeline for the accumulator: nothing is pending, every suspended
  call of \<open>processMessage\<close> keeps it so and records no call of the accumulator, and the
  trace holds no such call.
\<close>

definition untouched :: "pipeline \<Rightarrow> bool" where
  "untouched pl =
     (nothing_pending (world pl)
      \<and> list_all (\<lambda>wk. case wk of
                     Await_processMessage i k \<Rightarrow> safe nothing_pending no_accumulator k
                   | Await_pause i \<Rightarrow> True) (workers pl)
      \<and> list_all (\<lambda>ie. case snd ie of
                     Effect ev \<Rightarrow> no_accumulator ev
                   | Dequeued m \<Rightarrow> True) (trace pl))"

section \<open>Running a call while the host changes the page\<close>

text \<open>
  While a call sleeps, the host page may replace the document. \<open>shown w po\<close> is the
  state a timer finds when the call went to sleep on \<open>w\<close>: \<open>w\<close> itself when the host
  has left the document alone (\<open>None\<close>), and \<open>w\<close> with the page \<open>p\<close> when the host has
  put \<open>p\<close> in place (\<open>Some p\<close>). \<open>wake w ps\<close> is the state found at the next wake-up
  when \<open>ps\<close> lists what the host does during the sleeps to come, the next one first;
  when \<open>ps\<close> is used up the host leaves the document alone.
\<close>

definition shown :: "world \<Rightarrow> page option \<Rightarrow> world" where
  "shown w po = (case po of None \<Rightarrow> w | Some p \<Rightarrow> w\<lparr>page := p\<rparr>)"

definition wake :: "world \<Rightarrow> page option list \<Rightarrow> world" where
  "wake w ps = (case ps of [] \<Rightarrow> w | po # rest \<Rightarrow> shown w po)"

text \<open>
  Running a call to its end, every sleep ended by its timer: the outcome, the final
  state, all the events in order, and what is left of \<open>ps\<close>.
\<close>

primrec exec_with ::
  "'a res \<Rightarrow> page option list \<Rightarrow> (js_error + 'a) \<times> world \<times> event list \<times> page option list" where
  "exec_with (Done x w out) ps = (Inr x, w, out, ps)"
| "exec_with (Fail e w out) ps = (Inl e, w, out, ps)"
| "exec_with (Susp w out k) ps =
     (case exec_with (k (wake w ps)) (tl ps) of
        (r, w', evs, rest) \<Rightarrow> (r, w', out @ evs, rest))"

definition finish :: "'a res \<Rightarrow> page option list \<Rightarrow> (js_error + 'a) \<times> world \<times> event list" where
  "finish r ps = (case exec_with r ps of (x, w, evs, rest) \<Rightarrow> (x, w, evs))"

text \<open>The state after \<open>n\<close> wake-ups.\<close>

fun woken :: "nat \<Rightarrow> world \<Rightarrow> page option list \<Rightarrow> world" where
  "woken 0 w ps = w"
| "woken (Suc n) w ps = woken n (wake w ps) (tl ps)"

text \<open>
  The number of sleeps of a call of \<open>attachFile\<close> that has decoded its data: the two
  of the drag-and-drop sequence, which is left at once when \<open>getDropZone\<close> throws, and
  the one at the end.
\<close>

definition attach_waits :: "page \<Rightarrow> nat" where
  "attach_waits p = (case first_match p DROP_SELECTORS of Inl e \<Rightarrow> 1 | Inr found \<Rightarrow> 3)"

section \<open>One message after the other\<close>

text \<open>
  One turn of the loop of \<^verbatim>\<open>processQueue\<close> run to its end on its own, from the state
  \<open>w\<close>: the call of \<open>processMessage\<close> through all its sleeps, the toast of the
  \<^verbatim>\<open>catch\<close> block when it throws, and the \<^verbatim>\<open>sleep(300)\<close>. It gives the state left behind
  and the events.
\<close>

definition turn :: "config \<Rightarrow> message \<Rightarrow> world \<Rightarrow> page option list \<Rightarrow> world \<times> event list" where
  "turn cfg m w ps =
     (case exec_with (processMessage cfg m w) ps of
        (Inr u, w', evs, rest) \<Rightarrow> (w', evs @ [Sleep 300])
      | (Inl err, w', evs, rest) \<Rightarrow>
          (case exec (showErrorToast cfg err w') of
             (u, w'', toast) \<Rightarrow> (w'', evs @ toast @ [Sleep 300])))"

text \<open>
  The messages of a schedule handled strictly one after the other, numbered from \<open>i\<close>:
  each entry gives a message, what the host did to the document before the message is
  dequeued, and what it does during each sleep of the processing. The trace is, for
  each message in turn, its dequeuing followed by all the events of its turn; the next
  message is dequeued on the state the turn left behind.
\<close>

fun serve ::
  "config \<Rightarrow> nat \<Rightarrow> world \<Rightarrow> (message \<times> page option \<times> page option list) list
     \<Rightarrow> (nat \<times> entry) list \<times> world" where
  "serve cfg i w [] = ([], w)"
| "serve cfg i w ((m, po, ps) # sched) =
     (case turn cfg m (shown w po) ps of
        (w', evs) \<Rightarrow>
          (case serve cfg (Suc i) w' sched of
             (tr, w'') \<Rightarrow> ((i, Dequeued m) # map (\<lambda>e. (i, Effect e)) evs @ tr, w'')))"

text \<open>The pages the host puts in place in a list of inputs.\<close>

fun hosted :: "input list \<Rightarrow> page list" where
  "hosted [] = []"
| "hosted (HostUpdate p # inps) = p # hosted inps"
| "hosted (Deliver m # inps) = hosted inps"
| "hosted (Timer n # inps) = hosted inps"

definition from_host :: "page list \<Rightarrow> page option \<Rightarrow> bool" where
  "from_host hs po = (case po of None \<Rightarrow> True | Some p \<Rightarrow> p \<in> set hs)"

definition hosted_only ::
  "page list \<Rightarrow> (message \<times> page option \<times> page option list) list \<Rightarrow> bool" where
  "hosted_only hs sched =
     list_all (\<lambda>(m, po, ps). from_host hs po \<and> list_all (from_host hs) ps) sched"

text \<open>The events recorded for the message \<open>i\<close>.\<close>

fun effects_of :: "nat \<Rightarrow> (nat \<times> entry) list \<Rightarrow> event list" where
  "effects_of i [] = []"
| "effects_of i ((j, Dequeued m) # tr) = effects_of i tr"
| "effects_of i ((j, Effect e) # tr) = (if j = i then e # effects_of i tr else effects_of i tr)"

text \<open>
  The pipeline between two turns, from the page \<open>p0\<close> the script was loaded on: the
  trace is that of a schedule handled one message after the other, whose pages are
  among \<open>hs\<close>, and the state is the one that schedule left behind, but for what the host
  has done to the document since.
\<close>

definition served :: "config \<Rightarrow> page \<Rightarrow> page list \<Rightarrow> pipeline \<Rightarrow> bool" where
  "served cfg p0 hs pl =
     (\<exists>sched w po. serve cfg 0 (world_of p0) sched = (trace pl, w) \<and> hosted_only hs sched
        \<and> world pl = shown w po \<and> from_host hs po)"

text \<open>
  The pipeline in the middle of the turn for the message \<open>m\<close> with number \<open>i\<close>: the
  trace is that of a schedule handled one message after the other, then the dequeuing
  of \<open>m\<close> and the events \<open>pre\<close>; and the call \<open>r\<close> is what is left of the call of
  \<open>processMessage\<close> for \<open>m\<close> after the wake-ups \<open>pgs\<close>: run to its end, however the
  host behaves, it gives what the call of \<open>processMessage\<close> gives after \<open>pre\<close>.
\<close>

definition midway ::
  "config \<Rightarrow> page \<Rightarrow> page list \<Rightarrow> nat \<Rightarrow> unit res \<Rightarrow> (nat \<times> entry) list \<Rightarrow> bool" where
  "midway cfg p0 hs i r tr' =
     (\<exists>sched tr w po0 m pgs pre.
        serve cfg 0 (world_of p0) sched = (tr, w) \<and> hosted_only hs sched \<and> i = length sched
        \<and> from_host hs po0 \<and> list_all (from_host hs) pgs
        \<and> tr' = tr @ (i, Dequeued m) # map (\<lambda>e. (i, Effect e)) pre
        \<and> (\<forall>ps. finish (processMessage cfg m (shown w po0)) (pgs @ ps) =
                 (case finish r ps of (x, w', evs) \<Rightarrow> (x, w', pre @ evs))))"

text \<open>The same for a call that is suspended, to be resumed on the state the timer finds.\<close>

definition serving ::
  "config \<Rightarrow> page \<Rightarrow> page list \<Rightarrow> nat \<Rightarrow> (world \<Rightarrow> unit res) \<Rightarrow> pipeline \<Rightarrow> bool" where
  "serving cfg p0 hs i k pl =
     (\<exists>ws po. world pl = shown ws po \<and> from_host hs po
        \<and> midway cfg p0 hs i (Susp ws [] k) (trace pl))"

definition tracked :: "config \<Rightarrow> page \<Rightarrow> page list \<Rightarrow> pipeline \<Rightarrow> bool" where
  "tracked cfg p0 hs pl =
     (case workers pl of
        [] \<Rightarrow> served cfg p0 hs pl
      | Await_pause i # wks \<Rightarrow> served cfg p0 hs pl
      | Await_processMessage i k # wks \<Rightarrow> serving cfg p0 hs i k pl)"

text \<open>The events of a call run to its end while the host changes the page.\<close>

definition events_with :: "'a res \<Rightarrow> page option list \<Rightarrow> event list" where
  "events_with r ps = snd (snd (finish r ps))"

text \<open>
  A call that has come to its end without sleeping, and a function all of whose calls
  do: a synchronous function.
\<close>

fun returned :: "'a res \<Rightarrow> bool" where
  "returned (Done x w out) = True"
| "returned (Fail e w out) = True"
| "returned (Susp w out k) = False"

definition synchronous :: "'a prog \<Rightarrow> bool" where
  "synchronous m = (\<forall>w. returned (m w))"

section \<open>Properties of the relay\<close>

lemma scheduleReconnect_attempts:
  "reconnectAttempts (scheduleReconnect cfg r) = Suc (reconnectAttempts r)"
  by (simp add: scheduleReconnect_def Let_def)

lemma scheduleReconnect_timers:
  "timers (scheduleReconnect cfg r) = timers r @ [backoff cfg (reconnectAttempts r)]"
  by (simp add: scheduleReconnect_def backoff_def Let_def)

lemma ws_onclose_attempts:
  "reconnectAttempts (ws_onclose cfg r) = Suc (reconnectAttempts r)"
  by (simp add: ws_onclose_def scheduleReconnect_attempts updateBadge_def)

lemma ws_onclose_timers:
  "timers (ws_onclose cfg r) = timers r @ [backoff cfg (reconnectAttempts r)]"
  by (simp add: ws_onclose_def scheduleReconnect_timers updateBadge_def)

lemma ws_onopen_attempts: "reconnectAttempts (ws_onopen r) = 0"
  by (simp add: ws_onopen_def updateBadge_def Let_def)

lemma ws_onopen_timers: "timers (ws_onopen r) = timers r"
  by (simp add: ws_onopen_def updateBadge_def Let_def)

lemma connect_attempts:
  "reconnectAttempts (connect cfg t r) =
     (if fails r (Connect t) then Suc (reconnectAttempts r) else reconnectAttempts r)"
  by (simp add: connect_def fails_def scheduleReconnect_attempts updateBadge_def Let_def)

lemma connect_timers:
  "timers (connect cfg t r) =
     (if fails r (Connect t) then timers r @ [backoff cfg (reconnectAttempts r)] else timers r)"
  by (simp add: connect_def fails_def scheduleReconnect_timers updateBadge_def Let_def)

lemma relay_step_attempts:
  "\<not> resets ev \<Longrightarrow> reconnectAttempts (relay_step cfg r ev) =
     (if fails r ev then Suc (reconnectAttempts r) else reconnectAttempts r)"
  by (cases ev)
    (simp_all add: relay_step_def connect_attempts ws_onclose_attempts ws_onerror_def
      updateBadge_def fails_def)

lemma relay_step_timers:
  "\<not> resets ev \<Longrightarrow> timers (relay_step cfg r ev) =
     (if fails r ev then timers r @ [backoff cfg (reconnectAttempts r)] else timers r)"
  by (cases ev)
    (simp_all add: relay_step_def connect_timers ws_onclose_timers ws_onerror_def
      updateBadge_def fails_def)

lemma relay_run_failures:
  "list_all (\<lambda>ev. \<not> resets ev) evs \<Longrightarrow>
     reconnectAttempts (relay_run cfg evs r) = reconnectAttempts r + failure_count cfg r evs
   \<and> timers (relay_run cfg evs r) =
       timers r @ map (backoff cfg)
         [reconnectAttempts r ..< reconnectAttempts r + failure_count cfg r evs]"
proof (induction evs arbitrary: r)
  case Nil
  show ?case by (simp add: relay_run_def)
next
  case (Cons ev evs)
  from Cons.prems have ev: "\<not> resets ev" and rest: "list_all (\<lambda>ev. \<not> resets ev) evs"
    by simp_all
  have run: "relay_run cfg (ev # evs) r = relay_run cfg evs (relay_step cfg r ev)"
    by (simp add: relay_run_def)
  show ?case
  proof (cases "fails r ev")
    case True
    let ?a = "reconnectAttempts r" and ?c = "failure_count cfg (relay_step cfg r ev) evs"
    have u: "[?a..<?a + Suc ?c] = ?a # [Suc ?a..<Suc ?a + ?c]"
      by (simp add: upt_conv_Cons)
    have c: "failure_count cfg r (ev # evs) = Suc ?c"
      using True by simp
    from Cons.IH [OF rest, of "relay_step cfg r ev"] ev True
    have "reconnectAttempts (relay_run cfg evs (relay_step cfg r ev)) = Suc ?a + ?c"
      and "timers (relay_run cfg evs (relay_step cfg r ev)) =
        (timers r @ [backoff cfg ?a]) @ map (backoff cfg) [Suc ?a..<Suc ?a + ?c]"
      by (simp_all add: relay_step_attempts relay_step_timers)
    then show ?thesis
      unfolding run c u by simp
  next
    case False
    with Cons.IH [OF rest, of "relay_step cfg r ev"] ev show ?thesis
      by (simp add: run relay_step_attempts relay_step_timers)
  qed
qed




section \<open>Properties of the language detection\<close>

lemma foldl_higher_mem: "foldl higher a xs \<in> set (a # xs)"
  by (induction xs arbitrary: a) (auto simp: higher_def)

lemma foldl_higher_ge: "snd a \<le> snd (foldl higher a xs)"
proof (induction xs arbitrary: a)
  case Nil
  show ?case by simp
next
  case (Cons y ys)
  have "snd a \<le> snd (higher a y)"
    by (simp add: higher_def)
  also have "\<dots> \<le> snd (foldl higher (higher a y) ys)"
    by (rule Cons.IH)
  finally show ?case by simp
qed

lemma foldl_higher_max: "x \<in> set xs \<Longrightarrow> snd x \<le> snd (foldl higher a xs)"
proof (induction xs arbitrary: a)
  case Nil
  then show ?case by simp
next
  case (Cons y ys)
  show ?case
  proof (cases "x = y")
    case True
    have "snd y \<le> snd (higher a y)"
      by (simp add: higher_def)
    also have "\<dots> \<le> snd (foldl higher (higher a y) ys)"
      by (rule foldl_higher_ge)
    finally show ?thesis using True by simp
  next
    case False
    with Cons.prems have "x \<in> set ys" by simp
    then show ?thesis by (simp add: Cons.IH)
  qed
qed

lemma find_counts:
  "find (\<lambda>c. isDefault (fst c)) (counts langs t) =
     map_option (\<lambda>l. (l, match_count l t)) (find isDefault langs)"
  by (induction langs) (simp_all add: counts_def)

lemma nonDefault_set:
  "set (filter (\<lambda>c. \<not> isDefault (fst c) \<and> snd c > 0) (counts langs t)) =
     {(l, match_count l t) | l. l \<in> set langs \<and> \<not> isDefault l \<and> 0 < match_count l t}"
  by (auto simp: counts_def)

lemma detect_default:
  assumes d: "find isDefault langs = Some d"
    and le: "\<forall>l\<in>set langs. \<not> isDefault l \<longrightarrow> match_count l t \<le> match_count d t"
  shows "detect langs t = Some (d, match_count d t)"
proof (cases "filter (\<lambda>c. \<not> isDefault (fst c) \<and> snd c > 0) (counts langs t)")
  case Nil
  then show ?thesis
    by (simp add: detect_def Let_def find_counts d)
next
  case (Cons a rest)
  have "foldl higher a rest \<in> set (a # rest)"
    by (rule foldl_higher_mem)
  then have "foldl higher a rest \<in>
      {(l, match_count l t) | l. l \<in> set langs \<and> \<not> isDefault l \<and> 0 < match_count l t}"
    unfolding Cons [symmetric] nonDefault_set .
  with le have "snd (foldl higher a rest) \<le> match_count d t"
    by auto
  then show ?thesis
    by (simp add: detect_def Let_def find_counts d Cons)
qed

lemma detect_nondefault:
  assumes d: "find isDefault langs = Some d"
    and l: "l \<in> set langs" "\<not> isDefault l" "match_count d t < match_count l t"
  shows "\<exists>w. detect langs t = Some (w, match_count w t) \<and> w \<in> set langs \<and> \<not> isDefault w
           \<and> (\<forall>l\<in>set langs. \<not> isDefault l \<longrightarrow> match_count l t \<le> match_count w t)"
proof -
  let ?nd = "filter (\<lambda>c. \<not> isDefault (fst c) \<and> snd c > 0) (counts langs t)"
  from l have mem: "(l, match_count l t) \<in> set ?nd"
    unfolding nonDefault_set by auto
  then obtain a rest where nd: "?nd = a # rest"
    by (cases ?nd) auto
  let ?top = "foldl higher a rest"
  have "?top \<in> set (a # rest)"
    by (rule foldl_higher_mem)
  then have "?top \<in> set ?nd"
    by (simp add: nd)
  then obtain w where w: "?top = (w, match_count w t)" "w \<in> set langs" "\<not> isDefault w"
    unfolding nonDefault_set by auto
  have max: "snd x \<le> snd ?top" if "x \<in> set ?nd" for x
  proof -
    from that have "x = a \<or> x \<in> set rest" by (simp add: nd)
    then show ?thesis
      using foldl_higher_ge [of a rest] foldl_higher_max [of x rest a] by auto
  qed
  from max [OF mem] have "match_count l t \<le> match_count w t"
    by (simp add: w)
  with l have beats: "match_count d t < match_count w t" by simp
  have all: "match_count k t \<le> match_count w t" if "k \<in> set langs" "\<not> isDefault k" for k
  proof (cases "0 < match_count k t")
    case True
    with that have "(k, match_count k t) \<in> set ?nd"
      unfolding nonDefault_set by auto
    from max [OF this] show ?thesis by (simp add: w)
  next
    case False
    then show ?thesis by simp
  qed
  have "detect langs t = Some (w, match_count w t)"
    using beats by (simp add: detect_def Let_def find_counts d nd w)
  with w all show ?thesis by blast
qed

lemma default_English: "find isDefault TTS_LANGUAGES = Some English"
  by (simp add: TTS_LANGUAGES_def German_def French_def Chinese_def Japanese_def Korean_def
      Arabic_def Russian_def English_def)

text \<open>
  Claim C5. For every text, with the per-language match counts over \<open>TTS_LANGUAGES\<close>:
  if some non-default language has a count strictly greater than the default
  language's (English), the detected language is a non-default language whose count is
  the maximum over the non-default languages; otherwise (in particular on a tie with
  the default) the detected language is the default.
\<close>

theorem language_detection:
  "((\<exists>l\<in>set TTS_LANGUAGES. \<not> isDefault l \<and> match_count English t < match_count l t) \<longrightarrow>
      (\<exists>w. detect TTS_LANGUAGES t = Some (w, match_count w t) \<and> w \<in> set TTS_LANGUAGES
           \<and> \<not> isDefault w \<and> match_count English t < match_count w t
           \<and> (\<forall>l\<in>set TTS_LANGUAGES. \<not> isDefault l \<longrightarrow> match_count l t \<le> match_count w t)))
   \<and> ((\<forall>l\<in>set TTS_LANGUAGES. \<not> isDefault l \<longrightarrow> match_count l t \<le> match_count English t) \<longrightarrow>
      detect TTS_LANGUAGES t = Some (English, match_count English t))"
proof (intro conjI impI)
  assume "\<exists>l\<in>set TTS_LANGUAGES. \<not> isDefault l \<and> match_count English t < match_count l t"
  then obtain l where l: "l \<in> set TTS_LANGUAGES" "\<not> isDefault l"
      "match_count English t < match_count l t"
    by blast
  from detect_nondefault [OF default_English l]
  obtain w where w: "detect TTS_LANGUAGES t = Some (w, match_count w t)" "w \<in> set TTS_LANGUAGES"
      "\<not> isDefault w"
      "\<forall>l\<in>set TTS_LANGUAGES. \<not> isDefault l \<longrightarrow> match_count l t \<le> match_count w t"
    by blast
  from w(4) l have "match_count English t < match_count w t" by fastforce
  with w show "\<exists>w. detect TTS_LANGUAGES t = Some (w, match_count w t) \<and> w \<in> set TTS_LANGUAGES
           \<and> \<not> isDefault w \<and> match_count English t < match_count w t
           \<and> (\<forall>l\<in>set TTS_LANGUAGES. \<not> isDefault l \<longrightarrow> match_count l t \<le> match_count w t)"
    by blast
next
  assume "\<forall>l\<in>set TTS_LANGUAGES. \<not> isDefault l \<longrightarrow> match_count l t \<le> match_count English t"
  then show "detect TTS_LANGUAGES t = Some (English, match_count English t)"
    by (rule detect_default [OF default_English])
qed

lemmas lang_defs = TTS_LANGUAGES_def German_def French_def Chinese_def Japanese_def Korean_def
      Arabic_def Russian_def English_def

theorem language_detection_witness:
  "(\<exists>l\<in>set TTS_LANGUAGES. \<not> isDefault l
       \<and> match_count English [0x43F, 0x440, 0x438, 0x432, 0x435, 0x442, 0x20, 0x61]
         < match_count l [0x43F, 0x440, 0x438, 0x432, 0x435, 0x442, 0x20, 0x61])
   \<and> (\<exists>w. detect TTS_LANGUAGES [0x43F, 0x440, 0x438, 0x432, 0x435, 0x442, 0x20, 0x61] =
            Some (w, match_count w [0x43F, 0x440, 0x438, 0x432, 0x435, 0x442, 0x20, 0x61])
          \<and> \<not> isDefault w)
   \<and> detect TTS_LANGUAGES (lit ''hello'') = Some (English, 5)"
proof -
  let ?ru = "[0x43F, 0x440, 0x438, 0x432, 0x435, 0x442, 0x20, 0x61] :: jsstring"
  have "\<not> isDefault Russian \<and> match_count English ?ru < match_count Russian ?ru"
    by (simp add: Russian_def English_def match_count_def)
  then have h1: "\<exists>l\<in>set TTS_LANGUAGES. \<not> isDefault l
      \<and> match_count English ?ru < match_count l ?ru"
    by (simp add: TTS_LANGUAGES_def)
  have h2: "\<forall>l\<in>set TTS_LANGUAGES. \<not> isDefault l \<longrightarrow>
      match_count l (lit ''hello'') \<le> match_count English (lit ''hello'')"
    by (simp add: lang_defs match_count_def lit_def)
  have e: "match_count English (lit ''hello'') = 5"
    by (simp add: English_def match_count_def lit_def)
  from language_detection [of ?ru] h1
  have "\<exists>w. detect TTS_LANGUAGES ?ru = Some (w, match_count w ?ru) \<and> \<not> isDefault w"
    by blast
  moreover from language_detection [of "lit ''hello''"] h2 e
  have "detect TTS_LANGUAGES (lit ''hello'') = Some (English, 5)"
    by simp
  ultimately show ?thesis using h1 by blast
qed

section \<open>Properties of the transcript cursor\<close>

lemma processResponseElement_mono:
  "lastSpokenLength s \<le> lastSpokenLength (processResponseElement element s)"
  by (simp add: processResponseElement_def Let_def)

lemma processResponseElement_from_zero:
  "lastSpokenLength s = 0 \<Longrightarrow>
     lastSpokenLength (processResponseElement element s) = length (response_text element)"
  by (simp add: processResponseElement_def Let_def)

lemma onMutation_decrease:
  assumes "lastSpokenLength (onMutation d s) < lastSpokenLength s"
  shows "enabled s \<and> (\<exists>st p. streaming d = Some (st, p) \<and> lastStreamingElement s \<noteq> Some st)"
proof (rule ccontr)
  assume neg: "\<not> ?thesis"
  have "lastSpokenLength s \<le> lastSpokenLength (onMutation d s)"
  proof (cases "enabled s")
    case False
    then show ?thesis by (simp add: onMutation_def)
  next
    case en: True
    show ?thesis
    proof (cases "streaming d")
      case None
      with en show ?thesis
        using processResponseElement_mono
          [of "s\<lparr>lastStreamingElement := None\<rparr>" "last (completed d)"]
        by (simp add: onMutation_def Let_def)
    next
      case (Some sp)
      obtain st p where sp: "sp = (st, p)" by (cases sp)
      with neg en Some have same: "lastStreamingElement s = Some st" by simp
      show ?thesis
        using en Some sp same processResponseElement_mono [of s]
        by (simp add: onMutation_def Let_def split: option.split)
    qed
  qed
  with assms show False by simp
qed

lemma onMutation_new_stream:
  assumes "enabled s" "streaming d = Some (st, p)" "lastStreamingElement s \<noteq> Some st"
  shows "lastSpokenLength (onMutation d s) =
           (case p of None \<Rightarrow> 0 | Some element \<Rightarrow> length (response_text element))"
  using assms
  by (simp add: onMutation_def Let_def processResponseElement_from_zero split: option.split)

lemma toggle_cursor:
  "lastSpokenLength (toggle d s) =
     (if enabled s then lastSpokenLength s
      else case streaming d of
             Some (st, Some p) \<Rightarrow> length (innerText p)
           | Some (st, None) \<Rightarrow> lastSpokenLength s
           | None \<Rightarrow> (if responses d \<noteq> [] then length (innerText (last (responses d)))
                       else lastSpokenLength s))"
  by (simp add: toggle_def Let_def split: option.split prod.split)

text \<open>
  Claim C4, as amended. A mutation callback lowers \<open>lastSpokenLength\<close> only when speech
  is enabled and the callback sees a streaming element other than the tracked one; in
  that case the cursor is put to \<open>0\<close> and then advanced over the text of the new
  response in the same callback. Switching speech on with \<open>toggle\<close> does not put the
  cursor to \<open>0\<close>: it sets it to the length of the text on screen (the progressive block
  of the streaming element, or else the last response) and leaves it alone when there
  is none; switching speech off with \<open>toggle\<close>, the \<^verbatim>\<open>voice(state)\<close> command and the
  debounce timer leave it alone; \<open>stop\<close> and \<open>reset\<close> put it to \<open>0\<close>.
\<close>

theorem cursor_changes:
  "(lastSpokenLength (onMutation d s) < lastSpokenLength s \<longrightarrow>
      enabled s \<and> (\<exists>st p. streaming d = Some (st, p) \<and> lastStreamingElement s \<noteq> Some st))
   \<and> (enabled s \<and> streaming d = Some (st, p) \<and> lastStreamingElement s \<noteq> Some st \<longrightarrow>
      lastSpokenLength (onMutation d s) =
        (case p of None \<Rightarrow> 0 | Some element \<Rightarrow> length (response_text element)))
   \<and> lastSpokenLength (toggle d s) =
       (if enabled s then lastSpokenLength s
        else case streaming d of
               Some (st, Some p) \<Rightarrow> length (innerText p)
             | Some (st, None) \<Rightarrow> lastSpokenLength s
             | None \<Rightarrow> (if responses d \<noteq> [] then length (innerText (last (responses d)))
                         else lastSpokenLength s))
   \<and> lastSpokenLength (setEnabled b s) = lastSpokenLength s
   \<and> lastSpokenLength (onSpeakTimeout s) = lastSpokenLength s
   \<and> lastSpokenLength (stop s) = 0
   \<and> lastSpokenLength (reset s) = 0"
proof -
  have "lastSpokenLength (onSpeakTimeout s) = lastSpokenLength s"
    by (simp add: onSpeakTimeout_def speak_def Let_def)
  moreover have "lastSpokenLength (setEnabled b s) = lastSpokenLength s"
    by (simp add: setEnabled_def)
  moreover have "lastSpokenLength (stop s) = 0" "lastSpokenLength (reset s) = 0"
    by (simp_all add: stop_def reset_def)
  ultimately show ?thesis
    using onMutation_decrease [of d s] onMutation_new_stream [of s d st p] toggle_cursor [of d s]
    by blast
qed


lemma hello_text: "response_text hello_response = lit ''hello''"
  by (simp add: response_text_def hello_response_def body_text_def visible_def lit_def
      trim_def is_space_def)

lemma mid_turn_eq:
  "mid_turn = \<lparr>enabled = True, speaking = False, lastSpokenLength = 5, unlocked = False,
     pendingText = lit ''hello'', speakTimeout = True, lastStreamingElement = Some 7,
     spoken = []\<rparr>"
  by (simp add: mid_turn_def onMutation_def setEnabled_def TTS_initial_def streaming_dom_def
      processResponseElement_def hello_text Let_def) (simp add: lit_def)

theorem cursor_changes_witness:
  "lastSpokenLength (onMutation fresh_stream_dom mid_turn) < lastSpokenLength mid_turn
   \<and> enabled mid_turn
   \<and> (\<exists>st p. streaming fresh_stream_dom = Some (st, p) \<and> lastStreamingElement mid_turn \<noteq> Some st)
   \<and> streaming streaming_dom = Some (7, Some hello_response)
   \<and> enabled (setEnabled True TTS_initial)
   \<and> lastStreamingElement (setEnabled True TTS_initial) \<noteq> Some 7
   \<and> lastSpokenLength (onMutation streaming_dom (setEnabled True TTS_initial)) = 5
   \<and> lastSpokenLength (toggle idle_dom TTS_initial) = 5"
proof -
  have dec: "lastSpokenLength (onMutation fresh_stream_dom mid_turn) < lastSpokenLength mid_turn"
    by (simp add: mid_turn_eq onMutation_def fresh_stream_dom_def)
  have new: "enabled (setEnabled True TTS_initial)
      \<and> streaming streaming_dom = Some (7, Some hello_response)
      \<and> lastStreamingElement (setEnabled True TTS_initial) \<noteq> Some 7"
    by (simp add: setEnabled_def TTS_initial_def streaming_dom_def)
  have len: "length (response_text hello_response) = 5"
    by (simp add: hello_text lit_def)
  have off: "\<not> enabled TTS_initial" "streaming idle_dom = None"
      "responses idle_dom = [hello_response]" "length (innerText hello_response) = 5"
    by (simp_all add: TTS_initial_def idle_dom_def hello_response_def lit_def)
  from cursor_changes [of fresh_stream_dom mid_turn] dec
  have "enabled mid_turn \<and> (\<exists>st p. streaming fresh_stream_dom = Some (st, p)
      \<and> lastStreamingElement mid_turn \<noteq> Some st)"
    by blast
  moreover from cursor_changes [of streaming_dom "setEnabled True TTS_initial" 7
      "Some hello_response"] new len
  have "lastSpokenLength (onMutation streaming_dom (setEnabled True TTS_initial)) = 5"
    by simp
  moreover from cursor_changes [of idle_dom TTS_initial] off
  have "lastSpokenLength (toggle idle_dom TTS_initial) = 5"
    by simp
  ultimately show ?thesis using dec new by blast
qed

text \<open>
  Counterexample to claim C4 as stated: switching speech on from the disabled state
  leaves the cursor at \<open>5\<close>, the length of the response on screen, not at \<open>0\<close>; and
  in the middle of a streaming turn (the tracked element is still \<open>7\<close>) \<open>reset\<close>, which
  is neither a new streaming instance nor the enabling of speech, takes the cursor from
  \<open>5\<close> back to \<open>0\<close>.
\<close>

theorem cursor_reset_counterexample:
  "\<not> enabled TTS_initial
   \<and> enabled (toggle idle_dom TTS_initial)
   \<and> lastSpokenLength (toggle idle_dom TTS_initial) = 5
   \<and> lastStreamingElement mid_turn = Some 7
   \<and> lastSpokenLength mid_turn = 5
   \<and> lastStreamingElement (reset mid_turn) = Some 7
   \<and> lastSpokenLength (reset mid_turn) = 0"
  by (simp add: mid_turn_eq reset_def stop_def)
    (simp add: toggle_def TTS_initial_def idle_dom_def hello_response_def Let_def lit_def)

section \<open>Running asynchronous functions\<close>

lemma exec_after:
  "exec (after evs r) = (case exec r of (x, w, out) \<Rightarrow> (x, w, evs @ out))"
  by (cases r) (simp_all split: prod.split)

lemma exec_bindr:
  "exec (bindr r f) =
     (case exec r of
        (Inr x, w, out) \<Rightarrow> (case exec (f x w) of (y, w', out') \<Rightarrow> (y, w', out @ out'))
      | (Inl e, w, out) \<Rightarrow> (Inl e, w, out))"
proof (induction r)
  case (Done x w out)
  show ?case by (simp add: exec_after)
next
  case (Fail e w out)
  show ?case by simp
next
  case (Susp w out k)
  have "exec (bindr (k w) f) =
     (case exec (k w) of
        (Inr x, w, out) \<Rightarrow> (case exec (f x w) of (y, w', out') \<Rightarrow> (y, w', out @ out'))
      | (Inl e, w, out) \<Rightarrow> (Inl e, w, out))"
    by (rule Susp.IH) simp
  then show ?case
    by (simp split: prod.split sum.split)
qed

lemma exec_catchr:
  "exec (catchr r h) =
     (case exec r of
        (Inr x, w, out) \<Rightarrow> (Inr x, w, out)
      | (Inl e, w, out) \<Rightarrow> (case exec (h e w) of (y, w', out') \<Rightarrow> (y, w', out @ out')))"
proof (induction r)
  case (Done x w out)
  show ?case by simp
next
  case (Fail e w out)
  show ?case by (simp add: exec_after)
next
  case (Susp w out k)
  have "exec (catchr (k w) h) =
     (case exec (k w) of
        (Inr x, w, out) \<Rightarrow> (Inr x, w, out)
      | (Inl e, w, out) \<Rightarrow> (case exec (h e w) of (y, w', out') \<Rightarrow> (y, w', out @ out')))"
    by (rule Susp.IH) simp
  then show ?case
    by (simp split: prod.split sum.split)
qed

lemmas prog_defs = andThen_def ret_def throw_def emit_def on_page_def dispatchEvent_def
  set_textContent_def

section \<open>Properties of text injection\<close>

lemma getInputField_found:
  "first_match (page w) INPUT_SELECTORS = Inr (Some input) \<Longrightarrow>
     getInputField w = Done (Some input) w []"
  by (simp add: getInputField_def prog_defs)

text \<open>
  Claim C9. When the editor is found, \<open>injectText\<close> returns without suspending or
  throwing; the editor's content becomes the old content, a line feed and the injected
  text when the old content is not empty, and the injected text alone when it is; and
  it has, in this order, focused the editor, set the content, moved the caret to the
  end and dispatched an \<^verbatim>\<open>InputEvent\<close> and an \<^verbatim>\<open>input\<close> event, a \<^verbatim>\<open>change\<close> event and
  two keyboard events on it.
\<close>

theorem injectText_appends:
  assumes "first_match (page w) INPUT_SELECTORS = Inr (Some input)"
  shows "let E = textContent (page w) input;
             newText = (if E \<noteq> [] then E @ [10] @ t else t)
         in injectText (Some t) w =
              Done ()
                (w\<lparr>page := (page w)\<lparr>textContent := (textContent (page w))(input := newText)\<rparr>\<rparr>)
                [Called_injectText (Some t), Focus input, SetTextContent input newText,
                 SelectEnd input,
                 Dispatch input (InputEvent ''input'' ''insertText'' t),
                 Dispatch input (Event ''input''),
                 Dispatch input (Event ''change''),
                 Dispatch input (KeyboardEvent ''keydown'' ''a''),
                 Dispatch input (KeyboardEvent ''keyup'' ''a'')]"
  using getInputField_found [OF assms]
  by (simp add: injectText_def prog_defs Let_def)

lemma chat_page_input: "first_match chat_page INPUT_SELECTORS = Inr (Some 11)"
  by (simp add: INPUT_SELECTORS_def chat_page_def querySelector_def)

lemma draft_page_input: "first_match draft_page INPUT_SELECTORS = Inr (Some 11)"
  by (simp add: INPUT_SELECTORS_def draft_page_def chat_page_def querySelector_def)

theorem injectText_appends_witness:
  "first_match (page (world_of draft_page)) INPUT_SELECTORS = Inr (Some 11)
   \<and> (case injectText (Some (lit ''hello'')) (world_of draft_page) of
        Done u w out \<Rightarrow> textContent (page w) 11 = lit ''draft'' @ [10] @ lit ''hello''
      | Fail e w out \<Rightarrow> False
      | Susp w out k \<Rightarrow> False)
   \<and> first_match (page (world_of chat_page)) INPUT_SELECTORS = Inr (Some 11)
   \<and> (case injectText (Some (lit ''hello'')) (world_of chat_page) of
        Done u w out \<Rightarrow> textContent (page w) 11 = lit ''hello''
      | Fail e w out \<Rightarrow> False
      | Susp w out k \<Rightarrow> False)"
proof -
  have d: "first_match (page (world_of draft_page)) INPUT_SELECTORS = Inr (Some 11)"
    by (simp add: world_of_def draft_page_input)
  have c: "first_match (page (world_of chat_page)) INPUT_SELECTORS = Inr (Some 11)"
    by (simp add: world_of_def chat_page_input)
  have td: "textContent (page (world_of draft_page)) 11 = lit ''draft''"
    by (simp add: world_of_def draft_page_def)
  have tc: "textContent (page (world_of chat_page)) 11 = []"
    by (simp add: world_of_def chat_page_def)
  have nonempty: "lit ''draft'' \<noteq> []"
    by (simp add: lit_def)
  show ?thesis
    using injectText_appends [OF d, of "lit ''hello''"] injectText_appends [OF c, of "lit ''hello''"]
      d c nonempty
    by (simp add: Let_def td tc)
qed

section \<open>Properties of the locators\<close>

lemma first_match_found:
  assumes "\<forall>s\<in>set pre. \<not> unsupported p s \<and> matches p s = []"
    and "\<not> unsupported p sel" "matches p sel = el # els"
  shows "first_match p (pre @ sel # post) = Inr (Some el)"
  using assms by (induction pre) (simp_all add: querySelector_def)

lemma first_match_none:
  "\<forall>s\<in>set sels. \<not> unsupported p s \<and> matches p s = [] \<Longrightarrow> first_match p sels = Inr None"
  by (induction sels) (simp_all add: querySelector_def)

lemma first_enabled_found:
  assumes "\<forall>s\<in>set pre. unsupported p s \<or> matches p s = [] \<or> disabled p (hd (matches p s))"
    and "\<not> unsupported p sel" "matches p sel = el # els" "\<not> disabled p el"
  shows "first_enabled p (pre @ sel # post) = Some el"
  using assms
  by (induction pre) (auto simp: querySelector_def split: list.split)

lemma first_enabled_none:
  "\<forall>s\<in>set sels. unsupported p s \<or> matches p s = [] \<or> disabled p (hd (matches p s)) \<Longrightarrow>
     first_enabled p sels = None"
  by (induction sels) (auto simp: querySelector_def split: list.split)

lemma scan_supported:
  "\<forall>s\<in>set sels. \<not> unsupported p s \<Longrightarrow> snd (scan p sels) = None"
  by (induction sels) (auto split: prod.split)

lemma dump_supported:
  assumes "\<forall>s\<in>set sels. \<not> unsupported (page w) s"
  shows "dump label sels w =
           Done () w (ConsoleGroup label # fst (scan (page w) sels) @ [ConsoleGroupEnd])"
  using scan_supported [OF assms]
  by (cases "scan (page w) sels") (simp add: dump_def)

text \<open>
  Claim C8, as amended. The text-input locator returns the first element of the first
  selector of its list that matches, and the send-control locator the first element of
  the first selector whose first element is not disabled (a selector the browser
  rejects is passed over); when no selector qualifies they return \<^verbatim>\<open>null\<close> after
  printing the scan of the debug selectors. The drop-target locator returns the first
  element of the first selector of its list that matches and otherwise
  \<^verbatim>\<open>document.body\<close>, never \<^verbatim>\<open>null\<close>, and prints no scan. The file-input locator has one
  selector: it returns the first file input that is not disabled, else the first file
  input, else \<^verbatim>\<open>null\<close>, and prints no scan.
\<close>

theorem locate_targets:
  "(INPUT_SELECTORS = pre @ sel # post
      \<and> (\<forall>s\<in>set pre. \<not> unsupported (page w) s \<and> matches (page w) s = [])
      \<and> \<not> unsupported (page w) sel \<and> matches (page w) sel = el # els
    \<longrightarrow> getInputField w = Done (Some el) w [])
   \<and> ((\<forall>s\<in>set INPUT_SELECTORS. \<not> unsupported (page w) s \<and> matches (page w) s = [])
      \<and> (\<forall>s\<in>set INPUT_DEBUG_SELECTORS. \<not> unsupported (page w) s)
    \<longrightarrow> getInputField w =
          Done None w (ConsoleGroup ''[Claude Bridge] DOM Scan - Input Field Candidates''
            # fst (scan (page w) INPUT_DEBUG_SELECTORS) @ [ConsoleGroupEnd]))
   \<and> (SEND_SELECTORS = pre @ sel # post
      \<and> (\<forall>s\<in>set pre. unsupported (page w) s \<or> matches (page w) s = []
            \<or> disabled (page w) (hd (matches (page w) s)))
      \<and> \<not> unsupported (page w) sel \<and> matches (page w) sel = el # els
      \<and> \<not> disabled (page w) el
    \<longrightarrow> getSendButton w = Done (Some el) w [])
   \<and> ((\<forall>s\<in>set SEND_SELECTORS. unsupported (page w) s \<or> matches (page w) s = []
            \<or> disabled (page w) (hd (matches (page w) s)))
      \<and> (\<forall>s\<in>set BUTTON_DEBUG_SELECTORS. \<not> unsupported (page w) s)
    \<longrightarrow> getSendButton w =
          Done None w (ConsoleGroup ''[Claude Bridge] DOM Scan - Send Button Candidates''
            # fst (scan (page w) BUTTON_DEBUG_SELECTORS) @ [ConsoleGroupEnd]))
   \<and> (DROP_SELECTORS = pre @ sel # post
      \<and> (\<forall>s\<in>set pre. \<not> unsupported (page w) s \<and> matches (page w) s = [])
      \<and> \<not> unsupported (page w) sel \<and> matches (page w) sel = el # els
    \<longrightarrow> getDropZone w = Done el w [])
   \<and> ((\<forall>s\<in>set DROP_SELECTORS. \<not> unsupported (page w) s \<and> matches (page w) s = [])
    \<longrightarrow> getDropZone w = Done (body (page w)) w [])
   \<and> (\<not> unsupported (page w) ''input[type=\"file\"]''
    \<longrightarrow> getFileInput w =
          Done (case find (\<lambda>input. \<not> disabled (page w) input)
                       (matches (page w) ''input[type=\"file\"]'') of
                  Some input \<Rightarrow> Some input
                | None \<Rightarrow> (case matches (page w) ''input[type=\"file\"]'' of
                             [] \<Rightarrow> None
                           | input # _ \<Rightarrow> Some input)) w [])"
proof (intro conjI impI)
  assume "INPUT_SELECTORS = pre @ sel # post
      \<and> (\<forall>s\<in>set pre. \<not> unsupported (page w) s \<and> matches (page w) s = [])
      \<and> \<not> unsupported (page w) sel \<and> matches (page w) sel = el # els"
  then have "first_match (page w) INPUT_SELECTORS = Inr (Some el)"
    using first_match_found [of pre "page w" sel el els post] by simp
  then show "getInputField w = Done (Some el) w []"
    by (simp add: getInputField_def prog_defs)
next
  assume a: "(\<forall>s\<in>set INPUT_SELECTORS. \<not> unsupported (page w) s \<and> matches (page w) s = [])
      \<and> (\<forall>s\<in>set INPUT_DEBUG_SELECTORS. \<not> unsupported (page w) s)"
  then have "first_match (page w) INPUT_SELECTORS = Inr None"
    by (simp add: first_match_none)
  moreover from a have "dumpInputCandidates w =
      Done () w (ConsoleGroup ''[Claude Bridge] DOM Scan - Input Field Candidates''
        # fst (scan (page w) INPUT_DEBUG_SELECTORS) @ [ConsoleGroupEnd])"
    unfolding dumpInputCandidates_def by (intro dump_supported) simp
  ultimately show "getInputField w =
      Done None w (ConsoleGroup ''[Claude Bridge] DOM Scan - Input Field Candidates''
        # fst (scan (page w) INPUT_DEBUG_SELECTORS) @ [ConsoleGroupEnd])"
    by (simp add: getInputField_def prog_defs)
next
  assume "SEND_SELECTORS = pre @ sel # post
      \<and> (\<forall>s\<in>set pre. unsupported (page w) s \<or> matches (page w) s = []
            \<or> disabled (page w) (hd (matches (page w) s)))
      \<and> \<not> unsupported (page w) sel \<and> matches (page w) sel = el # els
      \<and> \<not> disabled (page w) el"
  then have "first_enabled (page w) SEND_SELECTORS = Some el"
    using first_enabled_found [of pre "page w" sel el els post] by simp
  then show "getSendButton w = Done (Some el) w []"
    by (simp add: getSendButton_def prog_defs)
next
  assume a: "(\<forall>s\<in>set SEND_SELECTORS. unsupported (page w) s \<or> matches (page w) s = []
            \<or> disabled (page w) (hd (matches (page w) s)))
      \<and> (\<forall>s\<in>set BUTTON_DEBUG_SELECTORS. \<not> unsupported (page w) s)"
  then have "first_enabled (page w) SEND_SELECTORS = None"
    by (simp add: first_enabled_none)
  moreover from a have "dumpButtonCandidates w =
      Done () w (ConsoleGroup ''[Claude Bridge] DOM Scan - Send Button Candidates''
        # fst (scan (page w) BUTTON_DEBUG_SELECTORS) @ [ConsoleGroupEnd])"
    unfolding dumpButtonCandidates_def by (intro dump_supported) simp
  ultimately show "getSendButton w =
      Done None w (ConsoleGroup ''[Claude Bridge] DOM Scan - Send Button Candidates''
        # fst (scan (page w) BUTTON_DEBUG_SELECTORS) @ [ConsoleGroupEnd])"
    by (simp add: getSendButton_def prog_defs)
next
  assume "DROP_SELECTORS = pre @ sel # post
      \<and> (\<forall>s\<in>set pre. \<not> unsupported (page w) s \<and> matches (page w) s = [])
      \<and> \<not> unsupported (page w) sel \<and> matches (page w) sel = el # els"
  then have "first_match (page w) DROP_SELECTORS = Inr (Some el)"
    using first_match_found [of pre "page w" sel el els post] by simp
  then show "getDropZone w = Done el w []"
    by (simp add: getDropZone_def prog_defs)
next
  assume "\<forall>s\<in>set DROP_SELECTORS. \<not> unsupported (page w) s \<and> matches (page w) s = []"
  then have "first_match (page w) DROP_SELECTORS = Inr None"
    by (simp add: first_match_none)
  then show "getDropZone w = Done (body (page w)) w []"
    by (simp add: getDropZone_def prog_defs)
next
  assume "\<not> unsupported (page w) ''input[type=\"file\"]''"
  then show "getFileInput w =
          Done (case find (\<lambda>input. \<not> disabled (page w) input)
                       (matches (page w) ''input[type=\"file\"]'') of
                  Some input \<Rightarrow> Some input
                | None \<Rightarrow> (case matches (page w) ''input[type=\"file\"]'' of
                             [] \<Rightarrow> None
                           | input # _ \<Rightarrow> Some input)) w []"
    by (simp add: getFileInput_def prog_defs querySelectorAll_def split: option.split)
qed


lemma chat_page_simps:
  "matches (page (world_of chat_page)) = matches chat_page"
  "unsupported (page (world_of chat_page)) = unsupported chat_page"
  "disabled (page (world_of chat_page)) = disabled chat_page"
  "body (page (world_of chat_page)) = 10"
  "matches (page (world_of blank_page)) = (\<lambda>sel. [])"
  "unsupported (page (world_of blank_page)) = unsupported chat_page"
  "body (page (world_of blank_page)) = 10"
  by (simp_all add: world_of_def blank_page_def chat_page_def)

lemma chat_page_unsupported:
  "unsupported chat_page sel = (sel = ''button:has(svg[data-icon=\"arrow-up\"])'')"
  by (simp add: chat_page_def)

lemma chat_page_matches:
  "matches chat_page sel =
     (if sel = ''[contenteditable=\"true\"]'' then [11]
      else if sel = ''button[type=\"submit\"]'' then [12]
      else if sel = ''form'' then [13]
      else if sel = ''input[type=\"file\"]'' then [14]
      else [])"
  by (simp add: chat_page_def)

lemma chat_page_disabled: "disabled chat_page el = False"
  by (simp add: chat_page_def)

lemmas chat_page_eval = chat_page_simps chat_page_unsupported chat_page_matches
  chat_page_disabled

theorem locate_targets_witness:
  "getInputField (world_of chat_page) = Done (Some 11) (world_of chat_page) []
   \<and> getInputField (world_of blank_page) =
       Done None (world_of blank_page)
         [ConsoleGroup ''[Claude Bridge] DOM Scan - Input Field Candidates'', ConsoleGroupEnd]
   \<and> getSendButton (world_of chat_page) = Done (Some 12) (world_of chat_page) []
   \<and> getSendButton (world_of blank_page) =
       Done None (world_of blank_page)
         [ConsoleGroup ''[Claude Bridge] DOM Scan - Send Button Candidates'', ConsoleGroupEnd]
   \<and> getDropZone (world_of chat_page) = Done 13 (world_of chat_page) []
   \<and> getDropZone (world_of blank_page) = Done 10 (world_of blank_page) []
   \<and> getFileInput (world_of chat_page) = Done (Some 14) (world_of chat_page) []"
proof -
  let ?c = "world_of chat_page" and ?b = "world_of blank_page"
  have i1: "INPUT_SELECTORS = take 4 INPUT_SELECTORS @ ''[contenteditable=\"true\"]'' # []
      \<and> (\<forall>s\<in>set (take 4 INPUT_SELECTORS). \<not> unsupported (page ?c) s \<and> matches (page ?c) s = [])
      \<and> \<not> unsupported (page ?c) ''[contenteditable=\"true\"]''
      \<and> matches (page ?c) ''[contenteditable=\"true\"]'' = 11 # []"
    by (simp add: INPUT_SELECTORS_def chat_page_eval)
  have i2: "(\<forall>s\<in>set INPUT_SELECTORS. \<not> unsupported (page ?b) s \<and> matches (page ?b) s = [])
      \<and> (\<forall>s\<in>set INPUT_DEBUG_SELECTORS. \<not> unsupported (page ?b) s)"
    by (simp add: INPUT_SELECTORS_def INPUT_DEBUG_SELECTORS_def chat_page_eval)
  have i2s: "fst (scan (page ?b) INPUT_DEBUG_SELECTORS) = []"
    by (simp add: INPUT_DEBUG_SELECTORS_def chat_page_eval)
  have s1: "SEND_SELECTORS = take 5 SEND_SELECTORS @ ''button[type=\"submit\"]'' # []
      \<and> (\<forall>s\<in>set (take 5 SEND_SELECTORS). unsupported (page ?c) s \<or> matches (page ?c) s = []
            \<or> disabled (page ?c) (hd (matches (page ?c) s)))
      \<and> \<not> unsupported (page ?c) ''button[type=\"submit\"]''
      \<and> matches (page ?c) ''button[type=\"submit\"]'' = 12 # []
      \<and> \<not> disabled (page ?c) 12"
    by (simp add: SEND_SELECTORS_def chat_page_eval)
  have s2: "(\<forall>s\<in>set SEND_SELECTORS. unsupported (page ?b) s \<or> matches (page ?b) s = []
            \<or> disabled (page ?b) (hd (matches (page ?b) s)))
      \<and> (\<forall>s\<in>set BUTTON_DEBUG_SELECTORS. \<not> unsupported (page ?b) s)"
    by (simp add: SEND_SELECTORS_def BUTTON_DEBUG_SELECTORS_def chat_page_eval)
  have s2s: "fst (scan (page ?b) BUTTON_DEBUG_SELECTORS) = []"
    by (simp add: BUTTON_DEBUG_SELECTORS_def chat_page_eval)
  have d1: "DROP_SELECTORS = take 3 DROP_SELECTORS @ ''form'' # [''main'']
      \<and> (\<forall>s\<in>set (take 3 DROP_SELECTORS). \<not> unsupported (page ?c) s \<and> matches (page ?c) s = [])
      \<and> \<not> unsupported (page ?c) ''form'' \<and> matches (page ?c) ''form'' = 13 # []"
    by (simp add: DROP_SELECTORS_def chat_page_eval)
  have d2: "\<forall>s\<in>set DROP_SELECTORS. \<not> unsupported (page ?b) s \<and> matches (page ?b) s = []"
    by (simp add: DROP_SELECTORS_def chat_page_eval)
  have f1: "\<not> unsupported (page ?c) ''input[type=\"file\"]''"
    by (simp add: chat_page_eval)
  have f1m: "matches (page ?c) ''input[type=\"file\"]'' = [14]" "\<not> disabled (page ?c) 14"
    by (simp_all add: chat_page_eval)
  have "getInputField ?c = Done (Some 11) ?c []"
    using locate_targets [of "take 4 INPUT_SELECTORS" "''[contenteditable=\"true\"]''" "[]" ?c 11 "[]"] i1
    by blast
  moreover have "getInputField ?b = Done None ?b
      [ConsoleGroup ''[Claude Bridge] DOM Scan - Input Field Candidates'', ConsoleGroupEnd]"
    using locate_targets [of _ _ _ ?b] i2 i2s by simp
  moreover have "getSendButton ?c = Done (Some 12) ?c []"
    using locate_targets [of "take 5 SEND_SELECTORS" "''button[type=\"submit\"]''" "[]" ?c 12 "[]"] s1
    by blast
  moreover have "getSendButton ?b = Done None ?b
      [ConsoleGroup ''[Claude Bridge] DOM Scan - Send Button Candidates'', ConsoleGroupEnd]"
    using locate_targets [of _ _ _ ?b] s2 s2s by simp
  moreover have "getDropZone ?c = Done 13 ?c []"
    using locate_targets [of "take 3 DROP_SELECTORS" "''form''" "[''main'']" ?c 13 "[]"] d1
    by blast
  moreover have "getDropZone ?b = Done 10 ?b []"
    using locate_targets [of _ _ _ ?b] d2 by (simp add: chat_page_simps)
  moreover have "getFileInput ?c = Done (Some 14) ?c []"
    using locate_targets [of _ _ _ ?c] f1 f1m by simp
  ultimately show ?thesis by blast
qed

text \<open>
  Counterexample to claim C8 as stated: on a page where no selector matches anything
  the drop-target locator returns \<^verbatim>\<open>document.body\<close> (element \<open>10\<close>), not \<^verbatim>\<open>null\<close>,
  and neither it nor the file-input locator prints a diagnostic scan.
\<close>

theorem locate_targets_counterexample:
  "getDropZone (world_of blank_page) = Done 10 (world_of blank_page) []
   \<and> getFileInput (world_of blank_page) = Done None (world_of blank_page) []"
  by (simp add: getDropZone_def getFileInput_def prog_defs DROP_SELECTORS_def
      querySelector_def querySelectorAll_def chat_page_eval)

section \<open>Running the functions of the content script\<close>

lemma exec_andThen:
  "exec (andThen m f w) =
     (case exec (m w) of
        (Inr x, w', out) \<Rightarrow> (case exec (f x w') of (y, w'', out') \<Rightarrow> (y, w'', out @ out'))
      | (Inl e, w', out) \<Rightarrow> (Inl e, w', out))"
  by (simp add: andThen_def exec_bindr)

lemma exec_try_catch:
  "exec (try_catch m h w) =
     (case exec (m w) of
        (Inr x, w', out) \<Rightarrow> (Inr x, w', out)
      | (Inl e, w', out) \<Rightarrow> (case exec (h e w') of (y, w'', out') \<Rightarrow> (y, w'', out @ out')))"
  by (simp add: try_catch_def exec_catchr)

lemma exec_prims:
  "exec (ret x w) = (Inr x, w, [])"
  "exec (throw e w) = (Inl e, w, [])"
  "exec (emit ev w) = (Inr (), w, [ev])"
  "exec (sleep ms w) = (Inr (), w, [Sleep ms])"
  "exec (dispatchEvent el dev w) = (Inr (), w, [Dispatch el dev])"
  "exec (on_page g w) = (case g (page w) of Inl e \<Rightarrow> (Inl e, w, []) | Inr x \<Rightarrow> (Inr x, w, []))"
  by (simp_all add: ret_def throw_def emit_def sleep_def dispatchEvent_def on_page_def
      split: sum.split)

lemma exec_getDropZone:
  "exec (getDropZone w) =
     (case first_match (page w) DROP_SELECTORS of
        Inl e \<Rightarrow> (Inl e, w, [])
      | Inr None \<Rightarrow> (Inr (body (page w)), w, [])
      | Inr (Some el) \<Rightarrow> (Inr el, w, []))"
  by (simp add: getDropZone_def exec_andThen exec_prims split: sum.split option.split)

lemma exec_getFileInput:
  "\<exists>r. exec (getFileInput w) = (r, w, [])"
  by (simp add: getFileInput_def exec_andThen exec_prims split: sum.split option.split)

lemma inert_simps [simp]:
  "inert (Dispatch el dev)" "inert (Sleep n)" "inert (SetFiles el f)"
  "inert (Focus el)" "inert (SetTextContent el t)" "inert (SelectEnd el)"
  "inert (Toast msg kind)" "inert (ErrorToast err)" "inert (ConsoleGroup label)"
  "inert (ConsoleFound sel els)" "inert ConsoleGroupEnd"
  "\<not> inert (Called_attachFile b fn mt)" "\<not> inert (Called_injectText a)"
  "\<not> inert Called_clickSend" "\<not> inert (Click el)"
  by (simp_all add: inert_def)

lemma exec_attachFile:
  assumes "atob (page w) base64Data = Some bytes"
  shows "\<exists>evs. exec (attachFile base64Data filename mimeType w) =
           (Inr (), w, Called_attachFile base64Data filename mimeType # evs)
         \<and> list_all inert evs"
proof -
  obtain r where r: "exec (getFileInput w) = (r, w, [])"
    using exec_getFileInput by blast
  show ?thesis
    using assms r
    by (simp add: attachFile_def exec_andThen exec_try_catch exec_prims exec_getDropZone Let_def
        split: sum.split option.split)
qed

lemma exec_attachFile_invalid:
  assumes "atob (page w) base64Data = None"
  shows "exec (attachFile base64Data filename mimeType w) =
           (Inl InvalidCharacterError, w, [Called_attachFile base64Data filename mimeType])"
  using assms by (simp add: attachFile_def exec_andThen exec_prims)


lemma scan_inert: "list_all inert (fst (scan p sels))"
  by (induction sels) (auto split: prod.split)

lemma exec_dump:
  "\<exists>r evs. exec (dump label sels w) = (r, w, evs) \<and> list_all inert evs"
proof (cases "scan (page w) sels")
  case (Pair lines r)
  with scan_inert [of "page w" sels] show ?thesis
    by (cases r) (simp_all add: dump_def)
qed

lemma first_enabled_textContent [simp]:
  "first_enabled (p\<lparr>textContent := t\<rparr>) sels = first_enabled p sels"
  by (induction sels) (simp_all add: querySelector_def split: list.split)

lemma exec_clickSend:
  "\<exists>r evs. exec (clickSend w) = (r, w, Called_clickSend # evs)
     \<and> filter is_call evs = []
     \<and> filter is_send evs =
         (case first_enabled (page w) SEND_SELECTORS of Some b \<Rightarrow> [Click b] | None \<Rightarrow> [])"
proof (cases "first_enabled (page w) SEND_SELECTORS")
  case (Some b)
  then show ?thesis
    by (simp add: clickSend_def getSendButton_def exec_andThen exec_prims)
next
  case None
  obtain r evs where d: "exec (dumpButtonCandidates w) = (r, w, evs)" "list_all inert evs"
    unfolding dumpButtonCandidates_def using exec_dump by blast
  from d(2) have "filter is_call evs = []" "filter is_send evs = []"
    by (simp_all add: inert_def list_all_iff filter_empty_conv)
  with None d(1) show ?thesis
    by (cases r) (simp_all add: clickSend_def getSendButton_def exec_andThen exec_prims)
qed

lemma exec_injectText_found:
  assumes "first_match (page w) INPUT_SELECTORS = Inr (Some input)"
  shows "\<exists>w' evs. exec (injectText (Some t) w) = (Inr (), w', Called_injectText (Some t) # evs)
     \<and> list_all inert evs
     \<and> first_enabled (page w') SEND_SELECTORS = first_enabled (page w) SEND_SELECTORS"
  using getInputField_found [OF assms]
  by (simp add: injectText_def prog_defs Let_def)

lemma exec_injectText_missing:
  assumes "\<forall>input. first_match (page w) INPUT_SELECTORS \<noteq> Inr (Some input)"
  shows "\<exists>e evs. exec (injectText (Some t) w) = (Inl e, w, Called_injectText (Some t) # evs)
     \<and> list_all inert evs"
proof (cases "first_match (page w) INPUT_SELECTORS")
  case (Inl e)
  then show ?thesis
    by (simp add: injectText_def getInputField_def exec_andThen exec_prims)
next
  case (Inr found)
  with assms have none: "found = None" by (cases found) auto
  obtain r evs where d: "exec (dumpInputCandidates w) = (r, w, evs)" "list_all inert evs"
    unfolding dumpInputCandidates_def using exec_dump by blast
  with Inr none show ?thesis
    by (cases r) (simp_all add: injectText_def getInputField_def exec_andThen exec_prims)
qed


lemma exec_showToast:
  "\<exists>evs. exec (showToast cfg msg kind w) = (Inr (), w, evs) \<and> list_all inert evs"
  by (simp add: showToast_def exec_prims)

lemma inert_filters:
  "list_all inert evs \<Longrightarrow> filter is_send evs = []"
  "list_all inert evs \<Longrightarrow> filter is_call evs = []"
  by (simp_all add: inert_def list_all_iff filter_empty_conv)

section \<open>Properties of message processing\<close>

lemma processMessage_file:
  assumes "truthy (file_data m)"
    and "content_type m \<in> {Some (lit ''file''), Some (lit ''image''), Some (lit ''voice_audio'')}"
  shows "processMessage cfg m =
     andThen (attachFile (interp (file_data m)) (file_name m) (mime_type m)) (\<lambda>_.
     andThen (showToast cfg ([0xD83D, 0xDCCE] @ lit '' '' @ interp (sender m)
                @ lit '' attached: '' @ interp (file_name m)) ''info'') (\<lambda>_.
     if truthy (caption m) then
       andThen (injectText (if attributionPrefix cfg
                  then Some (lit ''['' @ interp (sender m) @ lit '']: '' @ interp (caption m))
                  else caption m)) (\<lambda>_.
       andThen (showToast cfg ([0xD83D, 0xDCAC] @ lit '' '' @ interp (sender m) @ lit '': ''
                  @ take 50 (interp (caption m)) @ lit ''...'') ''info'') (\<lambda>_.
       if autoSend cfg then
         andThen (sleep (attachmentDelay cfg)) (\<lambda>_. andThen clickSend (\<lambda>_. ret ()))
       else ret ()))
     else ret ()))"
  using assms unfolding processMessage_def Let_def by (simp only: conj_imp_eq_imp_imp if_True simp_thms)

lemma photo_fields:
  "truthy (file_data photo)" "truthy (file_data captioned_photo)"
  "content_type photo \<in> {Some (lit ''file''), Some (lit ''image''), Some (lit ''voice_audio'')}"
  "content_type captioned_photo
     \<in> {Some (lit ''file''), Some (lit ''image''), Some (lit ''voice_audio'')}"
  "\<not> truthy (caption photo)" "truthy (caption captioned_photo)"
  "interp (file_data photo) = lit ''aGk=''" "interp (file_data captioned_photo) = lit ''aGk=''"
  by (simp_all add: photo_def captioned_photo_def truthy_def interp_def lit_def)

lemma world_of_page [simp]: "page (world_of p) = p"
  by (simp add: world_of_def)

lemma chat_page_atob: "atob chat_page (lit ''aGk='') = Some (lit ''hi'')"
  by (simp add: chat_page_def)

lemma blank_page_input: "first_match blank_page INPUT_SELECTORS = Inr None"
  by (simp add: INPUT_SELECTORS_def blank_page_def chat_page_def querySelector_def)

lemma chat_page_send: "first_enabled chat_page SEND_SELECTORS = Some 12"
  by (simp add: SEND_SELECTORS_def chat_page_def querySelector_def)

section \<open>Properties of the queue: order and single flight\<close>

lemma dequeued_append: "dequeued (tr @ tr') = dequeued tr @ dequeued tr'"
  by (induction tr rule: dequeued.induct) simp_all

lemma dequeued_effects [simp]: "dequeued (map (\<lambda>e. (i, Effect e)) out) = []"
  by (induction out) simp_all

lemma zip_upt_snoc:
  "zip [0..<Suc (length acc)] (acc @ [m]) = zip [0..<length acc] acc @ [(length acc, m)]"
  by simp

lemma head_of_queue:
  assumes "xs @ (i, m) # ys = zip [0..<n] acc"
  shows "i = length xs"
proof -
  have len: "length xs < length (zip [0..<n] acc)"
    unfolding assms [symmetric] by simp
  have "zip [0..<n] acc ! length xs = (i, m)"
    unfolding assms [symmetric] by simp
  moreover from len have "zip [0..<n] acc ! length xs = ([0..<n] ! length xs, acc ! length xs)"
    by simp
  moreover from len have "[0..<n] ! length xs = length xs"
    by simp
  ultimately show ?thesis by simp
qed

lemma tags_effects [simp]: "map fst (map (\<lambda>e. (i, Effect e)) out) = replicate (length out) i"
  by (induction out) simp_all

lemma in_turn_record:
  "in_turn acc i pl \<Longrightarrow> in_turn acc i (record_events i out (pl\<lparr>world := w\<rparr>))"
  by (auto simp: in_turn_def record_events_def dequeued_append sorted_append list_all_iff
      simp del: map_map)

lemma in_turn_pause: "in_turn acc i pl \<Longrightarrow> ordered acc (pause i pl)"
  by (auto simp: in_turn_def ordered_def pause_def record_events_def dequeued_append
      sorted_append list_all_iff)

lemma in_turn_settle:
  assumes "in_turn acc i pl"
  shows "ordered acc (settle cfg i r pl)"
proof (cases r)
  case (Done u w out)
  with in_turn_pause [OF in_turn_record [OF assms]] show ?thesis
    by (simp add: settle_def)
next
  case (Fail err w out)
  with in_turn_pause [OF in_turn_record [OF assms]] show ?thesis
    by (simp add: settle_def split: prod.split)
next
  case (Susp w out k)
  with in_turn_record [OF assms, of out w] show ?thesis
    by (auto simp: settle_def in_turn_def ordered_def record_events_def)
qed

lemma at_test_loop:
  assumes "at_test acc pl"
  shows "ordered acc (loop cfg pl)"
proof (cases "messageQueue pl")
  case Nil
  with assms show ?thesis
    by (auto simp: loop_def at_test_def ordered_def list_all_iff)
next
  case (Cons im rest)
  obtain i m where im: "im = (i, m)" by (cases im)
  from assms Cons im have "dequeued (trace pl) @ (i, m) # rest = zip [0..<length acc] acc"
    by (simp add: at_test_def)
  then have i: "i = length (dequeued (trace pl))"
    by (rule head_of_queue)
  have "in_turn acc i (pl\<lparr>messageQueue := rest, trace := trace pl @ [(i, Dequeued m)]\<rparr>)"
    using assms Cons im i
    by (auto simp: at_test_def in_turn_def dequeued_append sorted_append list_all_iff
        intro: less_imp_le less_SucI)
  then show ?thesis
    using Cons im by (simp add: loop_def in_turn_settle)
qed

lemma ordered_handleMessage:
  assumes "ordered acc pl"
  shows "ordered (if type m = lit ''message'' then acc @ [m] else acc) (handleMessage cfg m pl)"
proof (cases "type m = lit ''message''")
  case False
  with assms show ?thesis by (simp add: handleMessage_def)
next
  case True
  let ?pl = "pl\<lparr>messageQueue := messageQueue pl @ [(arrivals pl, m)],
      arrivals := Suc (arrivals pl)\<rparr>"
  show ?thesis
  proof (cases "isProcessing pl")
    case busy: True
    with assms True show ?thesis
      by (simp add: handleMessage_def processQueue_def ordered_def)
  next
    case idle: False
    with assms have "at_test (acc @ [m]) (?pl\<lparr>isProcessing := True\<rparr>)"
      by (auto simp: ordered_def at_test_def)
    then have "ordered (acc @ [m]) (loop cfg (?pl\<lparr>isProcessing := True\<rparr>))"
      by (rule at_test_loop)
    with True idle show ?thesis
      by (simp add: handleMessage_def processQueue_def)
  qed
qed

lemma ordered_timer:
  assumes "ordered acc pl"
  shows "ordered acc (step cfg pl (Timer n))"
proof (cases "n < length (workers pl)")
  case False
  with assms show ?thesis by (simp add: step_def)
next
  case True
  with assms obtain wk where wk: "workers pl = [wk]" and n: "n = 0"
    by (cases "workers pl") (auto simp: ordered_def)
  let ?pl = "pl\<lparr>workers := []\<rparr>"
  show ?thesis
  proof (cases wk)
    case (Await_processMessage i k)
    with assms wk have "in_turn acc i ?pl"
      by (auto simp: ordered_def in_turn_def list_all_iff)
    then have "ordered acc (settle cfg i (k (world ?pl)) ?pl)"
      by (rule in_turn_settle)
    with wk n Await_processMessage show ?thesis
      by (simp add: step_def resume_def)
  next
    case (Await_pause i)
    with assms wk have "at_test acc ?pl"
      by (auto simp: ordered_def at_test_def)
    then have "ordered acc (loop cfg ?pl)"
      by (rule at_test_loop)
    with wk n Await_pause show ?thesis
      by (simp add: step_def resume_def)
  qed
qed

lemma deliveries_append: "deliveries (inps @ inps') = deliveries inps @ deliveries inps'"
  by (induction inps rule: deliveries.induct) simp_all

lemma ordered_step:
  assumes "ordered (accepted inps) pl"
  shows "ordered (accepted (inps @ [inp])) (step cfg pl inp)"
proof -
  note app = deliveries_append
  show ?thesis
  proof (cases inp)
    case (Deliver m)
    with ordered_handleMessage [OF assms, of m cfg] show ?thesis
      by (cases "type m = lit ''message''") (simp_all add: accepted_def app step_def)
  next
    case (Timer n)
    with ordered_timer [OF assms, of cfg n] show ?thesis
      by (simp add: accepted_def app)
  next
    case (HostUpdate p)
    with assms show ?thesis
      by (auto simp: accepted_def app step_def ordered_def)
  qed
qed

lemma ordered_start: "ordered (accepted []) (start p)"
  by (simp add: ordered_def start_def accepted_def)

lemma ordered_run: "ordered (accepted inps) (run cfg inps (start p))"
proof (induction inps rule: rev_induct)
  case Nil
  show ?case by (simp add: run_def ordered_start)
next
  case (snoc inp inps)
  from ordered_step [OF snoc.IH, of inp cfg] show ?case
    by (simp add: run_def)
qed


subsection \<open>The worker finishes\<close>

lemma run_append: "run cfg (inps @ inps') pl = run cfg inps' (run cfg inps pl)"
  by (simp add: run_def)

lemma run_timer: "run cfg (Timer 0 # inps) pl = run cfg inps (step cfg pl (Timer 0))"
  by (simp add: run_def)

lemma timers_split:
  "replicate (Suc (n1 + n2)) x = replicate n1 x @ x # replicate n2 x"
  by (simp add: replicate_add replicate_app_Cons_same)

lemma timers_split2:
  "replicate (Suc (Suc (n1 + n2))) x = x # replicate n1 x @ x # replicate n2 x"
  by (simp add: replicate_add replicate_app_Cons_same)

lemma settle_queue:
  "messageQueue (settle cfg i r pl) = messageQueue pl"
  by (cases r) (simp_all add: settle_def pause_def record_events_def split: prod.split)

text \<open>
  From the middle of a turn, some number of timer callbacks brings the worker to the
  pause at the end of the turn, with the queue as it was.
\<close>

lemma turn_ends:
  assumes "in_turn acc i pl"
  shows "\<exists>n pl'. run cfg (replicate n (Timer 0)) (settle cfg i r pl) = pl'
           \<and> workers pl' = [Await_pause i] \<and> messageQueue pl' = messageQueue pl
           \<and> ordered acc pl'"
  using assms
proof (induction r arbitrary: pl)
  case (Done u w out)
  have "workers (settle cfg i (Done u w out) pl) = [Await_pause i]"
    using Done by (simp add: settle_def pause_def record_events_def in_turn_def)
  then show ?case
    using in_turn_settle [OF Done, of cfg "Done u w out"] settle_queue [of cfg i "Done u w out" pl]
    by (intro exI [of _ 0]) (simp add: run_def)
next
  case (Fail err w out)
  have "workers (settle cfg i (Fail err w out) pl) = [Await_pause i]"
    using Fail by (simp add: settle_def pause_def record_events_def in_turn_def split: prod.split)
  then show ?case
    using in_turn_settle [OF Fail, of cfg "Fail err w out"]
      settle_queue [of cfg i "Fail err w out" pl]
    by (intro exI [of _ 0]) (simp add: run_def)
next
  case (Susp w out k)
  let ?pl1 = "settle cfg i (Susp w out k) pl"
  let ?pl2 = "(record_events i out (pl\<lparr>world := w\<rparr>))\<lparr>workers := []\<rparr>"
  have pl1: "?pl1 = (record_events i out (pl\<lparr>world := w\<rparr>))\<lparr>workers := [Await_processMessage i k]\<rparr>"
    using Susp.prems by (simp add: settle_def in_turn_def)
  have turn: "in_turn acc i ?pl2"
    using Susp.prems
    by (auto simp: in_turn_def record_events_def dequeued_append sorted_append list_all_iff
        simp del: map_map)
  have stepped: "step cfg ?pl1 (Timer 0) = settle cfg i (k (world ?pl2)) ?pl2"
    by (simp add: pl1 step_def resume_def record_events_def)
  have "k (world ?pl2) \<in> range k" by simp
  from Susp.IH [OF this turn]
  obtain n pl' where n: "run cfg (replicate n (Timer 0)) (settle cfg i (k (world ?pl2)) ?pl2) = pl'"
      "workers pl' = [Await_pause i]" "messageQueue pl' = messageQueue ?pl2" "ordered acc pl'"
    by blast
  have "run cfg (replicate (Suc n) (Timer 0)) ?pl1 = pl'"
    using n(1) stepped by (simp add: run_timer)
  moreover have "messageQueue ?pl2 = messageQueue pl"
    by (simp add: record_events_def)
  ultimately show ?case
    using n(2,3,4) by metis
qed

lemma ordered_at_test:
  "ordered acc pl \<Longrightarrow> workers pl = [Await_pause i] \<Longrightarrow> at_test acc (pl\<lparr>workers := []\<rparr>)"
  by (auto simp: ordered_def at_test_def)

text \<open>From the test of the loop, some number of timer callbacks empties the queue.\<close>

lemma loop_drains:
  assumes "at_test acc pl"
  shows "\<exists>n. \<not> isProcessing (run cfg (replicate n (Timer 0)) (loop cfg pl))
           \<and> messageQueue (run cfg (replicate n (Timer 0)) (loop cfg pl)) = []"
  using assms
proof (induction "length (messageQueue pl)" arbitrary: pl)
  case 0
  then show ?case
    by (intro exI [of _ 0]) (simp add: run_def loop_def)
next
  case (Suc q)
  then obtain i m rest where q: "messageQueue pl = (i, m) # rest"
    by (cases "messageQueue pl") auto
  let ?pl1 = "pl\<lparr>messageQueue := rest, trace := trace pl @ [(i, Dequeued m)]\<rparr>"
  from Suc.prems q have "dequeued (trace pl) @ (i, m) # rest = zip [0..<length acc] acc"
    by (simp add: at_test_def)
  then have i: "i = length (dequeued (trace pl))"
    by (rule head_of_queue)
  have turn: "in_turn acc i ?pl1"
    using Suc.prems q i
    by (auto simp: at_test_def in_turn_def dequeued_append sorted_append list_all_iff
        intro: less_imp_le less_SucI)
  have loop: "loop cfg pl = settle cfg i (processMessage cfg m (world pl)) ?pl1"
    using q by (simp add: loop_def)
  from turn_ends [OF turn, of cfg "processMessage cfg m (world pl)"]
  obtain n1 pl2 where n1:
      "run cfg (replicate n1 (Timer 0)) (loop cfg pl) = pl2"
      "workers pl2 = [Await_pause i]" "messageQueue pl2 = rest" "ordered acc pl2"
    unfolding loop by auto
  let ?pl3 = "pl2\<lparr>workers := []\<rparr>"
  have test: "at_test acc ?pl3"
    using n1(4,2) by (rule ordered_at_test)
  have len: "q = length (messageQueue ?pl3)"
    using Suc.hyps(2) q n1(3) by simp
  from Suc.hyps(1) [OF len test]
  obtain n2 where n2: "\<not> isProcessing (run cfg (replicate n2 (Timer 0)) (loop cfg ?pl3))"
      "messageQueue (run cfg (replicate n2 (Timer 0)) (loop cfg ?pl3)) = []"
    by blast
  have stepped: "step cfg pl2 (Timer 0) = loop cfg ?pl3"
    using n1(2) by (simp add: step_def resume_def)
  have "run cfg (replicate n1 (Timer 0) @ Timer 0 # replicate n2 (Timer 0)) (loop cfg pl) =
      run cfg (replicate n2 (Timer 0)) (loop cfg ?pl3)"
    by (simp only: run_append run_timer n1(1) stepped)
  then have "run cfg (replicate (Suc (n1 + n2)) (Timer 0)) (loop cfg pl) =
      run cfg (replicate n2 (Timer 0)) (loop cfg ?pl3)"
    by (simp only: timers_split)
  with n2 show ?case by metis
qed

lemma ordered_drains:
  assumes "ordered acc pl"
  shows "\<exists>n. \<not> isProcessing (run cfg (replicate n (Timer 0)) pl)
           \<and> messageQueue (run cfg (replicate n (Timer 0)) pl) = []"
proof (cases "workers pl")
  case Nil
  with assms show ?thesis
    by (intro exI [of _ 0]) (auto simp: run_def ordered_def)
next
  case (Cons wk wks)
  with assms have wk: "workers pl = [wk]"
    by (simp add: ordered_def)
  let ?pl0 = "pl\<lparr>workers := []\<rparr>"
  show ?thesis
  proof (cases wk)
    case (Await_pause i)
    have test: "at_test acc ?pl0"
      using assms wk Await_pause by (simp add: ordered_at_test)
    from loop_drains [OF test, of cfg]
    obtain n where n: "\<not> isProcessing (run cfg (replicate n (Timer 0)) (loop cfg ?pl0))"
        "messageQueue (run cfg (replicate n (Timer 0)) (loop cfg ?pl0)) = []"
      by blast
    have "step cfg pl (Timer 0) = loop cfg ?pl0"
      using wk Await_pause by (simp add: step_def resume_def)
    then have "run cfg (replicate (Suc n) (Timer 0)) pl =
        run cfg (replicate n (Timer 0)) (loop cfg ?pl0)"
      by (simp add: run_timer)
    with n show ?thesis by metis
  next
    case (Await_processMessage i k)
    have turn: "in_turn acc i ?pl0"
      using assms wk Await_processMessage by (auto simp: ordered_def in_turn_def list_all_iff)
    have stepped: "step cfg pl (Timer 0) = settle cfg i (k (world ?pl0)) ?pl0"
      using wk Await_processMessage by (simp add: step_def resume_def)
    from turn_ends [OF turn, of cfg "k (world ?pl0)"]
    obtain n1 pl2 where n1:
        "run cfg (replicate n1 (Timer 0)) (settle cfg i (k (world ?pl0)) ?pl0) = pl2"
        "workers pl2 = [Await_pause i]" "ordered acc pl2"
      by blast
    let ?pl3 = "pl2\<lparr>workers := []\<rparr>"
    have test: "at_test acc ?pl3"
      using n1(3,2) by (rule ordered_at_test)
    from loop_drains [OF test, of cfg]
    obtain n2 where n2: "\<not> isProcessing (run cfg (replicate n2 (Timer 0)) (loop cfg ?pl3))"
        "messageQueue (run cfg (replicate n2 (Timer 0)) (loop cfg ?pl3)) = []"
      by blast
    have "step cfg pl2 (Timer 0) = loop cfg ?pl3"
      using n1(2) by (simp add: step_def resume_def)
    then have "run cfg (Timer 0 # replicate n1 (Timer 0) @ Timer 0 # replicate n2 (Timer 0)) pl =
        run cfg (replicate n2 (Timer 0)) (loop cfg ?pl3)"
      by (simp only: run_append run_timer n1(1) stepped)
    then have "run cfg (replicate (Suc (Suc (n1 + n2))) (Timer 0)) pl =
        run cfg (replicate n2 (Timer 0)) (loop cfg ?pl3)"
      by (simp only: timers_split2)
    with n2 show ?thesis by metis
  qed
qed

section \<open>Properties of the queue: the accumulator is never used\<close>

lemma keeps_after:
  "keeps I P r \<Longrightarrow> list_all P evs \<Longrightarrow> keeps I P (after evs r)"
  by (induction rule: keeps.induct) (auto intro: keeps.intros)

lemma keeps_bindr:
  assumes "keeps I P r" and "\<And>x w. I w \<Longrightarrow> keeps I P (f x w)"
  shows "keeps I P (bindr r f)"
  using assms(1)
proof (induction rule: keeps.induct)
  case (keeps_Done w out x)
  then show ?case by (simp add: keeps_after assms(2))
next
  case (keeps_Fail w out e)
  then show ?case by (simp add: keeps.keeps_Fail)
next
  case (keeps_Susp w out k)
  then show ?case by (simp add: keeps.keeps_Susp)
qed

lemma keeps_catchr:
  assumes "keeps I P r" and "\<And>e w. I w \<Longrightarrow> keeps I P (h e w)"
  shows "keeps I P (catchr r h)"
  using assms(1)
proof (induction rule: keeps.induct)
  case (keeps_Done w out x)
  then show ?case by (simp add: keeps.keeps_Done)
next
  case (keeps_Fail w out e)
  then show ?case by (simp add: keeps_after assms(2))
next
  case (keeps_Susp w out k)
  then show ?case by (simp add: keeps.keeps_Susp)
qed

lemma safe_andThen:
  "safe I P m \<Longrightarrow> (\<And>x. safe I P (f x)) \<Longrightarrow> safe I P (andThen m f)"
  by (simp add: safe_def andThen_def keeps_bindr)

lemma safe_try_catch:
  "safe I P m \<Longrightarrow> (\<And>e. safe I P (h e)) \<Longrightarrow> safe I P (try_catch m h)"
  by (simp add: safe_def try_catch_def keeps_catchr)

lemma safe_prims:
  "safe I P (ret x)"
  "safe I P (throw e)"
  "P ev \<Longrightarrow> safe I P (emit ev)"
  "P (Sleep ms) \<Longrightarrow> safe I P (sleep ms)"
  "P (Dispatch el dev) \<Longrightarrow> safe I P (dispatchEvent el dev)"
  "safe I P (on_page g)"
  by (auto simp: safe_def ret_def throw_def emit_def sleep_def dispatchEvent_def on_page_def
      intro!: keeps.intros split: sum.split)

lemma safe_if: "safe I P a \<Longrightarrow> safe I P b \<Longrightarrow> safe I P (if c then a else b)"
  by simp

lemma safe_option:
  "safe I P a \<Longrightarrow> (\<And>x. safe I P (b x)) \<Longrightarrow> safe I P (case v of None \<Rightarrow> a | Some x \<Rightarrow> b x)"
  by (cases v) simp_all

text \<open>From here on: nothing is pending, and no event is a call of the accumulator.\<close>

lemma no_accumulator_simps [simp]:
  "no_accumulator (Called_attachFile b fn mt)" "no_accumulator (Called_injectText a)"
  "no_accumulator Called_clickSend" "no_accumulator (Dispatch el dev)" "no_accumulator (Sleep n)"
  "no_accumulator (SetFiles el f)" "no_accumulator (Focus el)"
  "no_accumulator (SetTextContent el t)" "no_accumulator (SelectEnd el)"
  "no_accumulator (Toast msg kind)" "no_accumulator (ErrorToast err)"
  "no_accumulator (ConsoleGroup label)" "no_accumulator (ConsoleFound sel els)"
  "no_accumulator ConsoleGroupEnd" "no_accumulator (Click el)"
  by (simp_all add: no_accumulator_def)

lemma scan_no_accumulator: "list_all no_accumulator (fst (scan p sels))"
  by (induction sels) (auto split: prod.split)

lemma safe_dump: "safe nothing_pending no_accumulator (dump label sels)"
proof -
  have "keeps nothing_pending no_accumulator (dump label sels w)" if "nothing_pending w" for w
  proof (cases "scan (page w) sels")
    case (Pair lines r)
    with scan_no_accumulator [of "page w" sels] that show ?thesis
      by (cases r) (auto simp: dump_def intro: keeps.intros)
  qed
  then show ?thesis by (simp add: safe_def)
qed

lemmas safe_intros = safe_andThen safe_try_catch safe_prims safe_if safe_option safe_dump

lemma safe_getInputField: "safe nothing_pending no_accumulator getInputField"
  unfolding getInputField_def dumpInputCandidates_def
  by (intro safe_intros; simp)

lemma safe_getSendButton: "safe nothing_pending no_accumulator getSendButton"
  unfolding getSendButton_def dumpButtonCandidates_def
  by (intro safe_intros; simp)

lemma safe_getDropZone: "safe nothing_pending no_accumulator getDropZone"
  unfolding getDropZone_def
  by (intro safe_intros; simp)

lemma safe_getFileInput: "safe nothing_pending no_accumulator getFileInput"
  unfolding getFileInput_def
  by (intro safe_intros; simp)

lemma safe_set_textContent: "safe nothing_pending no_accumulator (set_textContent el t)"
  by (auto simp: safe_def set_textContent_def nothing_pending_def intro: keeps.intros)

lemma safe_injectText: "safe nothing_pending no_accumulator (injectText arg)"
  unfolding injectText_def Let_def
  by (intro safe_intros safe_getInputField safe_set_textContent; simp)

lemma safe_attachFile:
  "safe nothing_pending no_accumulator (attachFile base64Data filename mimeType)"
  unfolding attachFile_def Let_def
  by (intro safe_intros safe_getDropZone safe_getFileInput; simp)

lemma safe_clickSend: "safe nothing_pending no_accumulator clickSend"
  unfolding clickSend_def
  by (intro safe_intros safe_getSendButton; simp)

lemma safe_showToast: "safe nothing_pending no_accumulator (showToast cfg msg kind)"
  unfolding showToast_def
  by (intro safe_intros; simp)

lemma safe_processMessage: "safe nothing_pending no_accumulator (processMessage cfg m)"
  unfolding processMessage_def Let_def
  by (intro safe_intros safe_attachFile safe_injectText safe_clickSend safe_showToast; simp)


lemma keeps_SuspD:
  "keeps I P (Susp w out k) \<Longrightarrow> I w \<and> list_all P out \<and> safe I P k"
  by (erule keeps.cases) (simp_all add: safe_def)

lemma keeps_DoneD: "keeps I P (Done x w out) \<Longrightarrow> I w \<and> list_all P out"
  by (erule keeps.cases) simp_all

lemma keeps_FailD: "keeps I P (Fail e w out) \<Longrightarrow> I w \<and> list_all P out"
  by (erule keeps.cases) simp_all

lemma untouched_record:
  "untouched pl \<Longrightarrow> nothing_pending w \<Longrightarrow> list_all no_accumulator out \<Longrightarrow>
     untouched (record_events i out (pl\<lparr>world := w\<rparr>))"
  by (auto simp: untouched_def record_events_def list_all_iff)

lemma untouched_pause: "untouched pl \<Longrightarrow> untouched (pause i pl)"
  by (auto simp: untouched_def pause_def record_events_def list_all_iff)

lemma exec_showErrorToast:
  "exec (showErrorToast cfg err w) =
     (Inr (), w, if showNotifications cfg then [ErrorToast err] else [])"
  by (simp add: showErrorToast_def ret_def emit_def)

lemma untouched_settle:
  assumes "untouched pl" and "keeps nothing_pending no_accumulator r"
  shows "untouched (settle cfg i r pl)"
proof (cases r)
  case (Done u w out)
  with assms(2) have "nothing_pending w" "list_all no_accumulator out"
    by (auto dest: keeps_DoneD)
  with assms(1) Done show ?thesis
    by (simp add: settle_def untouched_pause untouched_record)
next
  case (Fail err w out)
  with assms(2) have "nothing_pending w" "list_all no_accumulator out"
    by (auto dest: keeps_FailD)
  then have "untouched (record_events i
      (out @ (if showNotifications cfg then [ErrorToast err] else [])) (pl\<lparr>world := w\<rparr>))"
    using assms(1) by (intro untouched_record) simp_all
  with Fail show ?thesis
    by (simp add: settle_def exec_showErrorToast untouched_pause)
next
  case (Susp w out k)
  with assms(2) have "nothing_pending w" "list_all no_accumulator out"
      "safe nothing_pending no_accumulator k"
    by (auto dest: keeps_SuspD)
  with untouched_record [OF assms(1), of w out i] assms(1) Susp show ?thesis
    by (auto simp: settle_def untouched_def record_events_def)
qed

lemma untouched_loop:
  assumes "untouched pl"
  shows "untouched (loop cfg pl)"
proof (cases "messageQueue pl")
  case Nil
  with assms show ?thesis
    by (simp add: loop_def untouched_def)
next
  case (Cons im rest)
  obtain i m where im: "im = (i, m)" by (cases im)
  from assms have "keeps nothing_pending no_accumulator (processMessage cfg m (world pl))"
    using safe_processMessage [of cfg m] by (simp add: safe_def untouched_def)
  moreover from assms
  have "untouched (pl\<lparr>messageQueue := rest, trace := trace pl @ [(i, Dequeued m)]\<rparr>)"
    by (simp add: untouched_def)
  ultimately show ?thesis
    using Cons im by (simp add: loop_def untouched_settle)
qed

lemma untouched_handleMessage:
  assumes "untouched pl"
  shows "untouched (handleMessage cfg m pl)"
proof -
  have "untouched (loop cfg (pl\<lparr>messageQueue := messageQueue pl @ [(arrivals pl, m)],
      arrivals := Suc (arrivals pl), isProcessing := True\<rparr>))"
    using assms by (intro untouched_loop) (simp add: untouched_def)
  moreover have "untouched (pl\<lparr>messageQueue := messageQueue pl @ [(arrivals pl, m)],
      arrivals := Suc (arrivals pl)\<rparr>)"
    using assms by (simp add: untouched_def)
  ultimately show ?thesis
    using assms by (simp add: handleMessage_def processQueue_def)
qed

lemma untouched_step:
  assumes "untouched pl"
  shows "untouched (step cfg pl inp)"
proof (cases inp)
  case (Deliver m)
  with assms show ?thesis
    by (simp add: step_def untouched_handleMessage)
next
  case (HostUpdate p)
  with assms show ?thesis
    by (simp add: step_def untouched_def nothing_pending_def)
next
  case (Timer n)
  show ?thesis
  proof (cases "n < length (workers pl)")
    case False
    with assms Timer show ?thesis by (simp add: step_def)
  next
    case True
    let ?pl = "pl\<lparr>workers := take n (workers pl) @ drop (Suc n) (workers pl)\<rparr>"
    have rest: "untouched ?pl"
      using assms by (auto simp: untouched_def list_all_iff dest: in_set_takeD in_set_dropD)
    have "untouched (resume cfg (workers pl ! n) ?pl)"
    proof (cases "workers pl ! n")
      case (Await_pause i)
      with rest show ?thesis
        by (simp add: resume_def untouched_loop)
    next
      case (Await_processMessage i k)
      from assms True have "case workers pl ! n of
          Await_processMessage i k \<Rightarrow> safe nothing_pending no_accumulator k
        | Await_pause i \<Rightarrow> True"
        by (simp add: untouched_def list_all_length)
      with Await_processMessage have "safe nothing_pending no_accumulator k"
        by simp
      moreover from rest have "nothing_pending (world ?pl)"
        by (simp add: untouched_def)
      ultimately have "keeps nothing_pending no_accumulator (k (world ?pl))"
        by (simp add: safe_def)
      with rest Await_processMessage show ?thesis
        by (simp add: resume_def untouched_settle)
    qed
    with True Timer show ?thesis
      by (simp add: step_def)
  qed
qed

lemma untouched_run: "untouched (run cfg inps (start p))"
proof (induction inps rule: rev_induct)
  case Nil
  show ?case
    by (simp add: run_def start_def untouched_def nothing_pending_def)
next
  case (snoc inp inps)
  then show ?case
    by (simp add: run_def untouched_step)
qed

text \<open>
  The accumulator, were it called, would show: \<open>accumulateAttachment\<close> records its call
  and leaves an entry in \<open>pendingAttachments\<close>, and \<open>flushAttachments\<close> records its
  call.
\<close>

lemma accumulateAttachment_shows:
  "\<exists>w' evs. exec (accumulateAttachment cfg base64Data filename mimeType who w) =
      (Inr (), w', Called_accumulateAttachment # evs)
     \<and> pendingAttachments w' = pendingAttachments w @
          [\<lparr>att_base64Data = base64Data, att_filename = filename, att_mimeType = mimeType,
            att_sender = who\<rparr>]"
  by (simp add: accumulateAttachment_def exec_andThen exec_prims showToast_def)

lemma flushAttachments_shows:
  "\<exists>r w' evs. exec (flushAttachments fuel w) = (r, w', Called_flushAttachments # evs)"
  by (simp add: flushAttachments_def exec_andThen exec_prims split: prod.split sum.split)

text \<open>
  Claim C10. After any sequence of deliveries, timer callbacks and changes of the page,
  starting from the freshly loaded script, \<open>pendingAttachments\<close> is empty and the trace
  holds no call of \<open>accumulateAttachment\<close> and no call of \<open>flushAttachments\<close>.
\<close>

theorem pending_stays_empty:
  "let pl = run cfg inps (start p) in
     pendingAttachments (world pl) = []
     \<and> filter (\<lambda>ie. snd ie = Effect Called_accumulateAttachment
                    \<or> snd ie = Effect Called_flushAttachments) (trace pl) = []"
proof -
  have "untouched (run cfg inps (start p))"
    by (rule untouched_run)
  then show ?thesis
    by (auto simp: Let_def untouched_def nothing_pending_def no_accumulator_def list_all_iff
        filter_empty_conv)
qed

section \<open>Properties of message intake\<close>

lemma content_type_literals:
  "lit ''text'' \<noteq> lit ''file''" "lit ''text'' \<noteq> lit ''image''"
  "lit ''text'' \<noteq> lit ''voice_audio''"
  "lit ''voice_transcribed'' \<noteq> lit ''file''" "lit ''voice_transcribed'' \<noteq> lit ''image''"
  "lit ''voice_transcribed'' \<noteq> lit ''voice_audio''"
  "lit ''file'' \<noteq> lit ''text''" "lit ''image'' \<noteq> lit ''text''"
  "lit ''voice_audio'' \<noteq> lit ''text''"
  "lit ''file'' \<noteq> lit ''voice_transcribed''" "lit ''image'' \<noteq> lit ''voice_transcribed''"
  "lit ''voice_audio'' \<noteq> lit ''voice_transcribed''"
  by (simp_all add: lit_def)

lemma settle_fields:
  "isProcessing (settle cfg i r pl) = isProcessing pl"
  "arrivals (settle cfg i r pl) = arrivals pl"
  "dequeued (trace (settle cfg i r pl)) = dequeued (trace pl)"
  by (cases r; simp add: settle_def pause_def record_events_def dequeued_append
      split: prod.split)+

lemma handleMessage_ignored:
  "type m \<noteq> lit ''message'' \<Longrightarrow> handleMessage cfg m pl = pl"
  by (simp add: handleMessage_def)

lemma handleMessage_busy:
  "type m = lit ''message'' \<Longrightarrow> isProcessing pl \<Longrightarrow>
     handleMessage cfg m pl =
       pl\<lparr>messageQueue := messageQueue pl @ [(arrivals pl, m)], arrivals := Suc (arrivals pl)\<rparr>"
  by (simp add: handleMessage_def processQueue_def)

lemma handleMessage_idle:
  assumes "type m = lit ''message''" "\<not> isProcessing pl" "messageQueue pl = []"
  shows "dequeued (trace (handleMessage cfg m pl)) = dequeued (trace pl) @ [(arrivals pl, m)]"
    and "messageQueue (handleMessage cfg m pl) = []"
    and "isProcessing (handleMessage cfg m pl)"
    and "arrivals (handleMessage cfg m pl) = Suc (arrivals pl)"
  using assms
  by (simp_all add: handleMessage_def processQueue_def loop_def settle_fields settle_queue
      dequeued_append)

lemma processMessage_unrecognised:
  assumes "content_type m \<notin> {Some (lit ''text''), Some (lit ''voice_transcribed''),
      Some (lit ''file''), Some (lit ''image''), Some (lit ''voice_audio'')}"
  shows "processMessage cfg m w = Done () w []"
  using assms by (simp add: processMessage_def ret_def split del: if_split)

lemma processMessage_text_only:
  assumes "content_type m \<in> {Some (lit ''text''), Some (lit ''voice_transcribed'')}"
  shows "processMessage cfg (m\<lparr>caption := c, file_data := fd, file_name := fn, mime_type := mt\<rparr>)
           = processMessage cfg m"
proof -
  from assms have "content_type m = Some (lit ''text'')
      \<or> content_type m = Some (lit ''voice_transcribed'')"
    by simp
  then show ?thesis
    by (elim disjE) (simp_all add: processMessage_def content_type_literals Let_def split del: if_split
        cong: if_cong option.case_cong)
qed

lemma processMessage_file_only:
  assumes "content_type m \<in> {Some (lit ''file''), Some (lit ''image''), Some (lit ''voice_audio'')}"
  shows "processMessage cfg (m\<lparr>msg_text := t\<rparr>) = processMessage cfg m"
proof -
  from assms have "content_type m = Some (lit ''file'') \<or> content_type m = Some (lit ''image'')
      \<or> content_type m = Some (lit ''voice_audio'')"
    by simp
  then show ?thesis
    by (elim disjE) (simp_all add: processMessage_def content_type_literals Let_def split del: if_split
        cong: if_cong option.case_cong)
qed

lemma processMessage_no_file_data:
  assumes "content_type m \<in> {Some (lit ''file''), Some (lit ''image''), Some (lit ''voice_audio'')}"
    and "\<not> truthy (file_data m)"
  shows "processMessage cfg m w = Done () w []"
proof -
  from assms have "content_type m = Some (lit ''file'') \<or> content_type m = Some (lit ''image'')
      \<or> content_type m = Some (lit ''voice_audio'')"
    by simp
  then show ?thesis
    using assms(2)
    by (elim disjE)
      (simp_all add: processMessage_def content_type_literals ret_def split del: if_split)
qed

text \<open>
  Claim C7, as amended. \<open>handleMessage\<close> drops a message only when its \<open>type\<close> is not
  \<^verbatim>\<open>message\<close>; it does not look at \<open>content_type\<close>. A message of type \<^verbatim>\<open>message\<close> is put
  at the end of the queue while the worker is busy, and is dequeued for processing at
  once when the worker is idle, whatever its \<open>content_type\<close>. Processing a message whose
  \<open>content_type\<close> is none of the five known values does nothing. For the text types
  the processing does not depend on \<open>caption\<close>, \<open>file_data\<close>, \<open>file_name\<close> and
  \<open>mime_type\<close>; for the file types it does not depend on \<open>text\<close>, and it does nothing
  when \<open>file_data\<close> is absent or empty.
\<close>

theorem intake_and_fields:
  "(type m \<noteq> lit ''message'' \<longrightarrow> handleMessage cfg m pl = pl)
   \<and> (type m = lit ''message'' \<and> isProcessing pl \<longrightarrow>
        handleMessage cfg m pl =
          pl\<lparr>messageQueue := messageQueue pl @ [(arrivals pl, m)],
             arrivals := Suc (arrivals pl)\<rparr>)
   \<and> (type m = lit ''message'' \<and> \<not> isProcessing pl \<and> messageQueue pl = [] \<longrightarrow>
        dequeued (trace (handleMessage cfg m pl)) = dequeued (trace pl) @ [(arrivals pl, m)])
   \<and> (content_type m \<notin> {Some (lit ''text''), Some (lit ''voice_transcribed''),
          Some (lit ''file''), Some (lit ''image''), Some (lit ''voice_audio'')} \<longrightarrow>
        processMessage cfg m w = Done () w [])
   \<and> (content_type m \<in> {Some (lit ''text''), Some (lit ''voice_transcribed'')} \<longrightarrow>
        processMessage cfg (m\<lparr>caption := c, file_data := fd, file_name := fn, mime_type := mt\<rparr>)
          = processMessage cfg m)
   \<and> (content_type m \<in> {Some (lit ''file''), Some (lit ''image''), Some (lit ''voice_audio'')} \<longrightarrow>
        processMessage cfg (m\<lparr>msg_text := t\<rparr>) = processMessage cfg m)
   \<and> (content_type m \<in> {Some (lit ''file''), Some (lit ''image''), Some (lit ''voice_audio'')}
        \<and> \<not> truthy (file_data m) \<longrightarrow>
        processMessage cfg m w = Done () w [])"
proof (intro conjI impI)
  assume "type m \<noteq> lit ''message''"
  then show "handleMessage cfg m pl = pl"
    by (rule handleMessage_ignored)
next
  assume "type m = lit ''message'' \<and> isProcessing pl"
  then show "handleMessage cfg m pl =
      pl\<lparr>messageQueue := messageQueue pl @ [(arrivals pl, m)], arrivals := Suc (arrivals pl)\<rparr>"
    by (simp add: handleMessage_busy)
next
  assume "type m = lit ''message'' \<and> \<not> isProcessing pl \<and> messageQueue pl = []"
  then show "dequeued (trace (handleMessage cfg m pl)) = dequeued (trace pl) @ [(arrivals pl, m)]"
    by (simp add: handleMessage_idle(1))
next
  assume "content_type m \<notin> {Some (lit ''text''), Some (lit ''voice_transcribed''),
      Some (lit ''file''), Some (lit ''image''), Some (lit ''voice_audio'')}"
  then show "processMessage cfg m w = Done () w []"
    by (rule processMessage_unrecognised)
next
  assume "content_type m \<in> {Some (lit ''text''), Some (lit ''voice_transcribed'')}"
  then show "processMessage cfg
      (m\<lparr>caption := c, file_data := fd, file_name := fn, mime_type := mt\<rparr>) = processMessage cfg m"
    by (rule processMessage_text_only)
next
  assume "content_type m \<in> {Some (lit ''file''), Some (lit ''image''), Some (lit ''voice_audio'')}"
  then show "processMessage cfg (m\<lparr>msg_text := t\<rparr>) = processMessage cfg m"
    by (rule processMessage_file_only)
next
  assume "content_type m \<in> {Some (lit ''file''), Some (lit ''image''), Some (lit ''voice_audio'')}
      \<and> \<not> truthy (file_data m)"
  then show "processMessage cfg m w = Done () w []"
    by (simp add: processMessage_no_file_data)
qed


lemma example_types:
  "type hello = lit ''message''" "type sticker = lit ''message''"
  "type (hello\<lparr>type := lit ''status''\<rparr>) \<noteq> lit ''message''"
  "content_type hello \<in> {Some (lit ''text''), Some (lit ''voice_transcribed'')}"
  "content_type photo \<in> {Some (lit ''file''), Some (lit ''image''), Some (lit ''voice_audio'')}"
  "content_type (photo\<lparr>file_data := None\<rparr>)
     \<in> {Some (lit ''file''), Some (lit ''image''), Some (lit ''voice_audio'')}"
  "\<not> truthy (file_data (photo\<lparr>file_data := None\<rparr>))"
  "content_type sticker \<notin> {Some (lit ''text''), Some (lit ''voice_transcribed''),
     Some (lit ''file''), Some (lit ''image''), Some (lit ''voice_audio'')}"
  by (simp_all add: hello_def sticker_def photo_def truthy_def lit_def)

lemma start_fields:
  "\<not> isProcessing (start p)" "messageQueue (start p) = []" "arrivals (start p) = 0"
  "dequeued (trace (start p)) = []" "world (start p) = world_of p"
  by (simp_all add: start_def world_of_def)

lemma after_hello:
  "isProcessing (handleMessage CONFIG hello (start chat_page))"
  "messageQueue (handleMessage CONFIG hello (start chat_page)) = []"
  "arrivals (handleMessage CONFIG hello (start chat_page)) = 1"
  using handleMessage_idle(2,3,4) [where m = hello and pl = "start chat_page" and cfg = CONFIG]
  by (simp_all add: start_fields example_types)

theorem intake_and_fields_witness:
  "handleMessage CONFIG (hello\<lparr>type := lit ''status''\<rparr>) (start chat_page) = start chat_page
   \<and> messageQueue (handleMessage CONFIG sticker (handleMessage CONFIG hello (start chat_page))) =
       [(1, sticker)]
   \<and> dequeued (trace (handleMessage CONFIG sticker (start chat_page))) = [(0, sticker)]
   \<and> processMessage CONFIG sticker (world_of chat_page) = Done () (world_of chat_page) []
   \<and> processMessage CONFIG (hello\<lparr>caption := Some (lit ''x''), file_data := Some (lit ''aGk=''),
         file_name := None, mime_type := None\<rparr>) = processMessage CONFIG hello
   \<and> processMessage CONFIG (photo\<lparr>msg_text := Some (lit ''x'')\<rparr>) = processMessage CONFIG photo
   \<and> processMessage CONFIG (photo\<lparr>file_data := None\<rparr>) (world_of chat_page) =
       Done () (world_of chat_page) []"
proof -
  let ?pl1 = "handleMessage CONFIG hello (start chat_page)"
  have "handleMessage CONFIG (hello\<lparr>type := lit ''status''\<rparr>) (start chat_page) = start chat_page"
    using intake_and_fields [where m = "hello\<lparr>type := lit ''status''\<rparr>" and cfg = CONFIG
        and pl = "start chat_page"] example_types(3)
    by blast
  moreover have "handleMessage CONFIG sticker ?pl1 =
      ?pl1\<lparr>messageQueue := messageQueue ?pl1 @ [(arrivals ?pl1, sticker)],
            arrivals := Suc (arrivals ?pl1)\<rparr>"
    using intake_and_fields [where m = sticker and cfg = CONFIG and pl = ?pl1]
      example_types(2) after_hello(1)
    by blast
  then have "messageQueue (handleMessage CONFIG sticker ?pl1) = [(1, sticker)]"
    by (simp add: after_hello)
  moreover have "dequeued (trace (handleMessage CONFIG sticker (start chat_page))) = [(0, sticker)]"
    using intake_and_fields [where m = sticker and cfg = CONFIG and pl = "start chat_page"]
      example_types(2) start_fields(1,2) [of chat_page]
    by (simp add: start_fields)
  moreover have "processMessage CONFIG sticker (world_of chat_page) = Done () (world_of chat_page) []"
    using intake_and_fields [where m = sticker and cfg = CONFIG and w = "world_of chat_page"]
      example_types(8)
    by blast
  moreover have "processMessage CONFIG (hello\<lparr>caption := Some (lit ''x''),
      file_data := Some (lit ''aGk=''), file_name := None, mime_type := None\<rparr>)
      = processMessage CONFIG hello"
    using intake_and_fields [where m = hello and cfg = CONFIG and c = "Some (lit ''x'')"
        and fd = "Some (lit ''aGk='')" and fn = None and mt = None] example_types(4)
    by blast
  moreover have "processMessage CONFIG (photo\<lparr>msg_text := Some (lit ''x'')\<rparr>)
      = processMessage CONFIG photo"
    using intake_and_fields [where m = photo and cfg = CONFIG and t = "Some (lit ''x'')"]
      example_types(5)
    by blast
  moreover have "processMessage CONFIG (photo\<lparr>file_data := None\<rparr>) (world_of chat_page) =
      Done () (world_of chat_page) []"
    using intake_and_fields [where m = "photo\<lparr>file_data := None\<rparr>" and cfg = CONFIG
        and w = "world_of chat_page"] example_types(6,7)
    by blast
  ultimately show ?thesis by blast
qed

text \<open>
  Counterexample to claim C7 as stated: a message of type \<^verbatim>\<open>message\<close> whose
  \<open>content_type\<close> is \<^verbatim>\<open>sticker\<close> is not dropped at ingestion. Delivered while the worker
  is busy with an earlier message it sits in the queue; delivered to the idle worker it
  is dequeued for processing.
\<close>

theorem intake_counterexample:
  "type sticker = lit ''message''
   \<and> content_type sticker \<notin> {Some (lit ''text''), Some (lit ''voice_transcribed''),
        Some (lit ''file''), Some (lit ''image''), Some (lit ''voice_audio'')}
   \<and> messageQueue (run CONFIG [Deliver hello, Deliver sticker] (start chat_page)) = [(1, sticker)]
   \<and> dequeued (trace (run CONFIG [Deliver sticker] (start chat_page))) = [(0, sticker)]"
proof -
  let ?pl1 = "handleMessage CONFIG hello (start chat_page)"
  have "messageQueue (handleMessage CONFIG sticker ?pl1) = [(1, sticker)]"
    using handleMessage_busy [where m = sticker and pl = ?pl1 and cfg = CONFIG]
    by (simp add: after_hello example_types)
  moreover have "dequeued (trace (handleMessage CONFIG sticker (start chat_page))) = [(0, sticker)]"
    using handleMessage_idle(1) [where m = sticker and pl = "start chat_page" and cfg = CONFIG]
    by (simp add: start_fields example_types)
  ultimately show ?thesis
    using example_types(2,8) by (simp add: run_def step_def)
qed

section \<open>Properties of calls run while the host changes the page\<close>

lemma shown_simps [simp]:
  "shown w None = w" "shown w (Some p) = w\<lparr>page := p\<rparr>"
  by (simp_all add: shown_def)

lemma wake_simps [simp]:
  "wake w [] = w" "wake w (po # ps) = shown w po"
  by (simp_all add: wake_def)

lemma shown_page: "(shown w po)\<lparr>page := p\<rparr> = shown w (Some p)"
  by (cases po) simp_all

lemma shown_pending [simp]: "pendingAttachments (shown w po) = pendingAttachments w"
  by (cases po) simp_all

lemma exec_with_after:
  "exec_with (after evs r) ps =
     (case exec_with r ps of (x, w, out, rest) \<Rightarrow> (x, w, evs @ out, rest))"
  by (cases r) (simp_all split: prod.split)

lemma exec_with_bindr:
  "exec_with (bindr r f) ps =
     (case exec_with r ps of
        (Inr x, w, out, rest) \<Rightarrow>
          (case exec_with (f x w) rest of (y, w', out', rest') \<Rightarrow> (y, w', out @ out', rest'))
      | (Inl e, w, out, rest) \<Rightarrow> (Inl e, w, out, rest))"
proof (induction r arbitrary: ps)
  case (Done x w out)
  show ?case by (simp add: exec_with_after)
next
  case (Fail e w out)
  show ?case by simp
next
  case (Susp w out k)
  have "exec_with (bindr (k (wake w ps)) f) (tl ps) =
     (case exec_with (k (wake w ps)) (tl ps) of
        (Inr x, w, out, rest) \<Rightarrow>
          (case exec_with (f x w) rest of (y, w', out', rest') \<Rightarrow> (y, w', out @ out', rest'))
      | (Inl e, w, out, rest) \<Rightarrow> (Inl e, w, out, rest))"
    by (rule Susp.IH) simp
  then show ?case
    by (simp split: prod.split sum.split)
qed

lemma exec_with_catchr:
  "exec_with (catchr r h) ps =
     (case exec_with r ps of
        (Inr x, w, out, rest) \<Rightarrow> (Inr x, w, out, rest)
      | (Inl e, w, out, rest) \<Rightarrow>
          (case exec_with (h e w) rest of (y, w', out', rest') \<Rightarrow> (y, w', out @ out', rest')))"
proof (induction r arbitrary: ps)
  case (Done x w out)
  show ?case by simp
next
  case (Fail e w out)
  show ?case by (simp add: exec_with_after)
next
  case (Susp w out k)
  have "exec_with (catchr (k (wake w ps)) h) (tl ps) =
     (case exec_with (k (wake w ps)) (tl ps) of
        (Inr x, w, out, rest) \<Rightarrow> (Inr x, w, out, rest)
      | (Inl e, w, out, rest) \<Rightarrow>
          (case exec_with (h e w) rest of (y, w', out', rest') \<Rightarrow> (y, w', out @ out', rest')))"
    by (rule Susp.IH) simp
  then show ?case
    by (simp split: prod.split sum.split)
qed

lemma exec_with_andThen:
  "exec_with (andThen m f w) ps =
     (case exec_with (m w) ps of
        (Inr x, w', out, rest) \<Rightarrow>
          (case exec_with (f x w') rest of (y, w'', out', rest') \<Rightarrow> (y, w'', out @ out', rest'))
      | (Inl e, w', out, rest) \<Rightarrow> (Inl e, w', out, rest))"
  by (simp add: andThen_def exec_with_bindr)

lemma exec_with_try_catch:
  "exec_with (try_catch m h w) ps =
     (case exec_with (m w) ps of
        (Inr x, w', out, rest) \<Rightarrow> (Inr x, w', out, rest)
      | (Inl e, w', out, rest) \<Rightarrow>
          (case exec_with (h e w') rest of (y, w'', out', rest') \<Rightarrow> (y, w'', out @ out', rest')))"
  by (simp add: try_catch_def exec_with_catchr)

lemma exec_with_sleep:
  "exec_with (sleep ms w) ps = (Inr (), wake w ps, [Sleep ms], tl ps)"
  by (simp add: sleep_def)

text \<open>A call that never sleeps runs the same whatever the host does.\<close>

lemma exec_with_exec:
  "(\<forall>w' out k. r \<noteq> Susp w' out k) \<Longrightarrow>
     exec_with r ps = (case exec r of (x, w, evs) \<Rightarrow> (x, w, evs, ps))"
  by (cases r) auto

lemma finish_simps:
  "finish (Done x w out) ps = (Inr x, w, out)"
  "finish (Fail e w out) ps = (Inl e, w, out)"
  "finish (Susp w out k) ps =
     (case finish (k (wake w ps)) (tl ps) of (x, w', evs) \<Rightarrow> (x, w', out @ evs))"
  by (simp_all add: finish_def split: prod.split)

section \<open>Properties of the queue: each message is processed to its end\<close>

lemma serve_append:
  "serve cfg i w (s1 @ s2) =
     (case serve cfg i w s1 of
        (tr1, w1) \<Rightarrow>
          (case serve cfg (i + length s1) w1 s2 of (tr2, w2) \<Rightarrow> (tr1 @ tr2, w2)))"
proof (induction s1 arbitrary: i w)
  case Nil
  show ?case by (simp split: prod.split)
next
  case (Cons a s1)
  obtain m po ps where a: "a = (m, po, ps)" by (cases a)
  show ?case
    by (simp add: a Cons.IH split: prod.split)
qed

lemma dequeued_serve:
  "dequeued (fst (serve cfg i w sched)) = zip [i..<i + length sched] (map fst sched)"
proof (induction sched arbitrary: i w)
  case Nil
  show ?case by simp
next
  case (Cons a sched)
  obtain m po ps where a: "a = (m, po, ps)" by (cases a)
  obtain w' evs where t: "turn cfg m (shown w po) ps = (w', evs)"
    by (cases "turn cfg m (shown w po) ps")
  obtain tr w'' where s: "serve cfg (Suc i) w' sched = (tr, w'')"
    by (cases "serve cfg (Suc i) w' sched")
  have "dequeued tr = zip [Suc i..<Suc i + length sched] (map fst sched)"
    using Cons.IH [of "Suc i" w'] s by simp
  moreover have "[i..<i + length (a # sched)] = i # [Suc i..<i + length (a # sched)]"
    by (rule upt_conv_Cons) simp
  moreover have "i + length (a # sched) = Suc i + length sched"
    by simp
  ultimately have "zip [i..<i + length (a # sched)] (map fst (a # sched)) = (i, m) # dequeued tr"
    by (simp only: a list.map fst_conv zip_Cons_Cons)
  then show ?case
    by (simp add: a t s dequeued_append del: upt_Suc)
qed

lemma from_host_mono: "from_host hs po \<Longrightarrow> set hs \<subseteq> set hs' \<Longrightarrow> from_host hs' po"
  by (cases po) (auto simp: from_host_def)

lemma from_host_all_mono:
  "list_all (from_host hs) ps \<Longrightarrow> set hs \<subseteq> set hs' \<Longrightarrow> list_all (from_host hs') ps"
  by (induction ps) (auto intro: from_host_mono)

lemma hosted_only_mono: "hosted_only hs sched \<Longrightarrow> set hs \<subseteq> set hs' \<Longrightarrow> hosted_only hs' sched"
proof (induction sched)
  case Nil
  show ?case by (simp add: hosted_only_def)
next
  case (Cons a sched)
  obtain m po ps where a: "a = (m, po, ps)" by (cases a)
  from Cons.prems(1) have "from_host hs po" "list_all (from_host hs) ps" "hosted_only hs sched"
    by (simp_all add: hosted_only_def a)
  with Cons.IH Cons.prems(2) show ?case
    by (simp add: hosted_only_def a from_host_mono from_host_all_mono)
qed

lemma served_mono:
  assumes "served cfg p0 hs pl" and "set hs \<subseteq> set hs'"
  shows "served cfg p0 hs' pl"
proof -
  from assms(1) obtain sched w po where
      s: "serve cfg 0 (world_of p0) sched = (trace pl, w)" "hosted_only hs sched"
        "world pl = shown w po" "from_host hs po"
    unfolding served_def by blast
  from s(2,4) assms(2) have "hosted_only hs' sched" "from_host hs' po"
    by (simp_all add: hosted_only_mono from_host_mono)
  with s(1,3) show ?thesis
    unfolding served_def by blast
qed

lemma midway_mono:
  assumes "midway cfg p0 hs i r tr'" and "set hs \<subseteq> set hs'"
  shows "midway cfg p0 hs' i r tr'"
proof -
  from assms(1) obtain sched tr w po0 m pgs pre where
      a: "serve cfg 0 (world_of p0) sched = (tr, w)" "hosted_only hs sched" "i = length sched"
        "from_host hs po0" "list_all (from_host hs) pgs"
        "tr' = tr @ (i, Dequeued m) # map (\<lambda>e. (i, Effect e)) pre"
        "\<forall>ps. finish (processMessage cfg m (shown w po0)) (pgs @ ps) =
                 (case finish r ps of (x, w', evs) \<Rightarrow> (x, w', pre @ evs))"
    unfolding midway_def by blast
  have "hosted_only hs' sched" "from_host hs' po0" "list_all (from_host hs') pgs"
    using a(2,4,5) assms(2) by (simp_all add: hosted_only_mono from_host_mono from_host_all_mono)
  with a(1,3,6,7) show ?thesis
    unfolding midway_def by blast
qed

lemma serving_mono:
  assumes "serving cfg p0 hs i k pl" and "set hs \<subseteq> set hs'"
  shows "serving cfg p0 hs' i k pl"
proof -
  from assms(1) obtain ws po where w: "world pl = shown ws po" "from_host hs po"
      and mid: "midway cfg p0 hs i (Susp ws [] k) (trace pl)"
    unfolding serving_def by blast
  from w(2) mid assms(2) have "from_host hs' po" "midway cfg p0 hs' i (Susp ws [] k) (trace pl)"
    by (simp_all add: from_host_mono midway_mono)
  with w(1) show ?thesis
    unfolding serving_def by blast
qed

lemma tracked_mono:
  "tracked cfg p0 hs pl \<Longrightarrow> set hs \<subseteq> set hs' \<Longrightarrow> tracked cfg p0 hs' pl"
  by (simp add: tracked_def served_mono serving_mono split: list.splits worker.splits)

text \<open>The end of a turn, from its middle.\<close>

lemma midway_settle:
  assumes "midway cfg p0 hs i r (trace pl)" and "workers pl = []"
  shows "tracked cfg p0 hs (settle cfg i r pl)"
proof -
  from assms(1) obtain sched tr w po0 m pgs pre where
      a: "serve cfg 0 (world_of p0) sched = (tr, w)" "hosted_only hs sched" "i = length sched"
        "from_host hs po0" "list_all (from_host hs) pgs"
        "trace pl = tr @ (i, Dequeued m) # map (\<lambda>e. (i, Effect e)) pre"
      and fin: "\<And>ps. finish (processMessage cfg m (shown w po0)) (pgs @ ps) =
                 (case finish r ps of (x, w', evs) \<Rightarrow> (x, w', pre @ evs))"
    unfolding midway_def by blast
  have hosted: "hosted_only hs (sched @ [(m, po0, pgs)])"
    using a(2,4,5) by (simp add: hosted_only_def)
  show ?thesis
  proof (cases r)
    case (Done u w' out)
    from fin [of "[]"] Done
    have "finish (processMessage cfg m (shown w po0)) pgs = (Inr u, w', pre @ out)"
      by (simp add: finish_simps)
    then have t: "turn cfg m (shown w po0) pgs = (w', pre @ out @ [Sleep 300])"
      by (auto simp: turn_def finish_def split: prod.splits)
    have "serve cfg 0 (world_of p0) (sched @ [(m, po0, pgs)]) =
        (trace (settle cfg i r pl), w')"
      using a(1,3,6) t Done
      by (simp add: serve_append settle_def pause_def record_events_def)
    moreover have "world (settle cfg i r pl) = shown w' None"
      using Done by (simp add: settle_def pause_def record_events_def)
    moreover have "from_host hs None"
      by (simp add: from_host_def)
    ultimately have "served cfg p0 hs (settle cfg i r pl)"
      using hosted unfolding served_def by blast
    moreover have "workers (settle cfg i r pl) = [Await_pause i]"
      using Done assms(2) by (simp add: settle_def pause_def record_events_def)
    ultimately show ?thesis
      by (simp add: tracked_def)
  next
    case (Fail err w' out)
    let ?toast = "if showNotifications cfg then [ErrorToast err] else []"
    from fin [of "[]"] Fail
    have "finish (processMessage cfg m (shown w po0)) pgs = (Inl err, w', pre @ out)"
      by (simp add: finish_simps)
    then have t: "turn cfg m (shown w po0) pgs = (w', pre @ out @ ?toast @ [Sleep 300])"
      by (auto simp: turn_def finish_def exec_showErrorToast split: prod.splits)
    have "serve cfg 0 (world_of p0) (sched @ [(m, po0, pgs)]) =
        (trace (settle cfg i r pl), w')"
      using a(1,3,6) t Fail
      by (simp add: serve_append settle_def pause_def record_events_def exec_showErrorToast)
    moreover have "world (settle cfg i r pl) = shown w' None"
      using Fail by (simp add: settle_def pause_def record_events_def exec_showErrorToast)
    moreover have "from_host hs None"
      by (simp add: from_host_def)
    ultimately have "served cfg p0 hs (settle cfg i r pl)"
      using hosted unfolding served_def by blast
    moreover have "workers (settle cfg i r pl) = [Await_pause i]"
      using Fail assms(2)
      by (simp add: settle_def pause_def record_events_def exec_showErrorToast)
    ultimately show ?thesis
      by (simp add: tracked_def)
  next
    case (Susp w' out k)
    have "finish (processMessage cfg m (shown w po0)) (pgs @ ps) =
        (case finish (Susp w' [] k) ps of (x, w'', evs) \<Rightarrow> (x, w'', (pre @ out) @ evs))" for ps
      using fin [of ps] Susp by (simp add: finish_simps split: prod.splits)
    moreover have "trace (settle cfg i r pl) =
        tr @ (i, Dequeued m) # map (\<lambda>e. (i, Effect e)) (pre @ out)"
      using a(6) Susp by (simp add: settle_def record_events_def)
    ultimately have "midway cfg p0 hs i (Susp w' [] k) (trace (settle cfg i r pl))"
      using a(1,2,3,4,5) unfolding midway_def by blast
    moreover have "world (settle cfg i r pl) = shown w' None"
      using Susp by (simp add: settle_def record_events_def)
    moreover have "from_host hs None"
      by (simp add: from_host_def)
    ultimately have "serving cfg p0 hs i k (settle cfg i r pl)"
      unfolding serving_def by blast
    moreover have "workers (settle cfg i r pl) = [Await_processMessage i k]"
      using Susp assms(2) by (simp add: settle_def record_events_def)
    ultimately show ?thesis
      by (simp add: tracked_def)
  qed
qed

text \<open>The test of the loop between two turns.\<close>

lemma served_loop:
  assumes "served cfg p0 hs pl" and "at_test acc pl"
  shows "tracked cfg p0 hs (loop cfg pl)"
proof (cases "messageQueue pl")
  case Nil
  from assms(2) have "workers pl = []"
    by (simp add: at_test_def)
  moreover have "served cfg p0 hs (pl\<lparr>isProcessing := False\<rparr>)"
    using assms(1) by (simp add: served_def)
  ultimately show ?thesis
    using Nil by (simp add: loop_def tracked_def)
next
  case (Cons im rest)
  obtain i m where im: "im = (i, m)" by (cases im)
  from assms(2) Cons im have "dequeued (trace pl) @ (i, m) # rest = zip [0..<length acc] acc"
    by (simp add: at_test_def)
  then have i: "i = length (dequeued (trace pl))"
    by (rule head_of_queue)
  from assms(1) obtain sched w po where
      s: "serve cfg 0 (world_of p0) sched = (trace pl, w)" "hosted_only hs sched"
        "world pl = shown w po" "from_host hs po"
    unfolding served_def by blast
  from dequeued_serve [of cfg 0 "world_of p0" sched] s(1) i have len: "i = length sched"
    by simp
  let ?pl = "pl\<lparr>messageQueue := rest, trace := trace pl @ [(i, Dequeued m)]\<rparr>"
  have "finish (processMessage cfg m (shown w po)) ([] @ ps) =
      (case finish (processMessage cfg m (world pl)) ps of (x, w', evs) \<Rightarrow> (x, w', [] @ evs))" for ps
    by (simp add: s(3) split: prod.split)
  moreover have "trace ?pl = trace pl @ (i, Dequeued m) # map (\<lambda>e. (i, Effect e)) []"
    by simp
  moreover have "list_all (from_host hs) []"
    by simp
  ultimately have "midway cfg p0 hs i (processMessage cfg m (world pl)) (trace ?pl)"
    using s(1,2,4) len unfolding midway_def by blast
  moreover from assms(2) have "workers ?pl = []"
    by (simp add: at_test_def)
  ultimately have "tracked cfg p0 hs (settle cfg i (processMessage cfg m (world pl)) ?pl)"
    by (rule midway_settle)
  then show ?thesis
    using Cons im by (simp add: loop_def)
qed

lemma tracked_handleMessage:
  assumes "ordered acc pl" and "tracked cfg p0 hs pl"
  shows "tracked cfg p0 hs (handleMessage cfg m pl)"
proof (cases "type m = lit ''message''")
  case False
  with assms(2) show ?thesis by (simp add: handleMessage_def)
next
  case True
  let ?pl = "pl\<lparr>messageQueue := messageQueue pl @ [(arrivals pl, m)],
      arrivals := Suc (arrivals pl)\<rparr>"
  show ?thesis
  proof (cases "isProcessing pl")
    case busy: True
    have "tracked cfg p0 hs ?pl"
      using assms(2)
      by (simp add: tracked_def served_def serving_def split: list.splits worker.splits)
    with True busy show ?thesis
      by (simp add: handleMessage_def processQueue_def)
  next
    case idle: False
    with assms(1) have none: "workers pl = []"
      by (simp add: ordered_def)
    with assms(2) have "served cfg p0 hs pl"
      by (simp add: tracked_def)
    then have "served cfg p0 hs (?pl\<lparr>isProcessing := True\<rparr>)"
      by (simp add: served_def)
    moreover from assms(1) idle have "at_test (acc @ [m]) (?pl\<lparr>isProcessing := True\<rparr>)"
      by (auto simp: ordered_def at_test_def)
    ultimately have "tracked cfg p0 hs (loop cfg (?pl\<lparr>isProcessing := True\<rparr>))"
      by (rule served_loop)
    with True idle show ?thesis
      by (simp add: handleMessage_def processQueue_def)
  qed
qed

lemma tracked_timer:
  assumes "ordered acc pl" and "tracked cfg p0 hs pl"
  shows "tracked cfg p0 hs (step cfg pl (Timer n))"
proof (cases "n < length (workers pl)")
  case False
  with assms(2) show ?thesis by (simp add: step_def)
next
  case True
  with assms(1) obtain wk where wk: "workers pl = [wk]" and n: "n = 0"
    by (cases "workers pl") (auto simp: ordered_def)
  let ?pl = "pl\<lparr>workers := []\<rparr>"
  show ?thesis
  proof (cases wk)
    case (Await_pause i)
    with assms(2) wk have "served cfg p0 hs pl"
      by (simp add: tracked_def)
    then have "served cfg p0 hs ?pl"
      by (simp add: served_def)
    moreover from assms(1) wk Await_pause have "at_test acc ?pl"
      by (simp add: ordered_at_test)
    ultimately have "tracked cfg p0 hs (loop cfg ?pl)"
      by (rule served_loop)
    with wk n Await_pause show ?thesis
      by (simp add: step_def resume_def)
  next
    case (Await_processMessage i k)
    with assms(2) wk have "serving cfg p0 hs i k pl"
      by (simp add: tracked_def)
    then obtain ws po where w: "world pl = shown ws po" "from_host hs po"
        and mid: "midway cfg p0 hs i (Susp ws [] k) (trace pl)"
      unfolding serving_def by blast
    from mid obtain sched tr w0 po0 m pgs pre where
        a: "serve cfg 0 (world_of p0) sched = (tr, w0)" "hosted_only hs sched" "i = length sched"
          "from_host hs po0" "list_all (from_host hs) pgs"
          "trace pl = tr @ (i, Dequeued m) # map (\<lambda>e. (i, Effect e)) pre"
        and fin: "\<And>ps. finish (processMessage cfg m (shown w0 po0)) (pgs @ ps) =
                 (case finish (Susp ws [] k) ps of (x, w', evs) \<Rightarrow> (x, w', pre @ evs))"
      unfolding midway_def by blast
    have "finish (processMessage cfg m (shown w0 po0)) ((pgs @ [po]) @ ps) =
        (case finish (k (world pl)) ps of (x, w', evs) \<Rightarrow> (x, w', pre @ evs))" for ps
      using fin [of "po # ps"] by (simp add: finish_simps w(1) split: prod.splits)
    moreover have "list_all (from_host hs) (pgs @ [po])"
      using a(5) w(2) by simp
    moreover have "trace ?pl = tr @ (i, Dequeued m) # map (\<lambda>e. (i, Effect e)) pre"
      using a(6) by simp
    ultimately have "midway cfg p0 hs i (k (world pl)) (trace ?pl)"
      using a(1,2,3,4) unfolding midway_def by blast
    then have "tracked cfg p0 hs (settle cfg i (k (world pl)) ?pl)"
      by (rule midway_settle) simp
    with wk n Await_processMessage show ?thesis
      by (simp add: step_def resume_def)
  qed
qed

lemma tracked_host:
  assumes "tracked cfg p0 hs pl"
  shows "tracked cfg p0 (hs @ [p]) (step cfg pl (HostUpdate p))"
proof -
  let ?pl = "pl\<lparr>world := (world pl)\<lparr>page := p\<rparr>\<rparr>"
  have host: "from_host (hs @ [p]) (Some p)"
    by (simp add: from_host_def)
  have sub: "set hs \<subseteq> set (hs @ [p])"
    by auto
  have served: "served cfg p0 (hs @ [p]) ?pl" if "served cfg p0 hs pl"
  proof -
    from that obtain sched w po where
        s: "serve cfg 0 (world_of p0) sched = (trace pl, w)" "hosted_only hs sched"
          "world pl = shown w po"
      unfolding served_def by blast
    have "world ?pl = shown w (Some p)"
      by (simp add: s(3) shown_page)
    moreover have "serve cfg 0 (world_of p0) sched = (trace ?pl, w)"
      using s(1) by simp
    ultimately show ?thesis
      using hosted_only_mono [OF s(2) sub] host unfolding served_def by blast
  qed
  have serving: "serving cfg p0 (hs @ [p]) i k ?pl" if "serving cfg p0 hs i k pl" for i k
  proof -
    from that obtain ws po where w: "world pl = shown ws po"
        and mid: "midway cfg p0 hs i (Susp ws [] k) (trace pl)"
      unfolding serving_def by blast
    have "world ?pl = shown ws (Some p)"
      by (simp add: w shown_page)
    moreover have "midway cfg p0 (hs @ [p]) i (Susp ws [] k) (trace ?pl)"
      using midway_mono [OF mid sub] by simp
    ultimately show ?thesis
      using host unfolding serving_def by blast
  qed
  show ?thesis
  proof (cases "workers pl")
    case Nil
    with assms served show ?thesis
      by (simp add: step_def tracked_def)
  next
    case (Cons wk wks)
    with assms served serving show ?thesis
      by (cases wk) (simp_all add: step_def tracked_def)
  qed
qed

lemma hosted_append: "hosted (inps @ inps') = hosted inps @ hosted inps'"
  by (induction inps rule: hosted.induct) simp_all

lemma tracked_step:
  assumes "ordered acc pl" and "tracked cfg p0 (hosted inps) pl"
  shows "tracked cfg p0 (hosted (inps @ [inp])) (step cfg pl inp)"
proof (cases inp)
  case (Deliver m)
  with tracked_handleMessage [OF assms, of m] show ?thesis
    by (simp add: step_def hosted_append)
next
  case (Timer n)
  with tracked_timer [OF assms, of n] show ?thesis
    by (simp add: hosted_append)
next
  case (HostUpdate p)
  with tracked_host [OF assms(2), of p] show ?thesis
    by (simp add: hosted_append)
qed

lemma tracked_run: "tracked cfg p (hosted inps) (run cfg inps (start p))"
proof (induction inps rule: rev_induct)
  case Nil
  have "serve cfg 0 (world_of p) [] = (trace (start p), world_of p)"
    by (simp add: start_def)
  moreover have "world (start p) = shown (world_of p) None"
    by (simp add: start_def world_of_def)
  ultimately have "served cfg p [] (start p)"
    unfolding served_def
    by (intro exI [of _ "[]"] exI [of _ "world_of p"] exI [of _ None])
      (simp add: hosted_only_def from_host_def)
  then show ?case
    by (simp add: run_def tracked_def start_def)
next
  case (snoc inp inps)
  from tracked_step [OF ordered_run snoc.IH, of inp] show ?case
    by (simp add: run_def)
qed

text \<open>The trace only grows.\<close>

lemma settle_trace: "\<exists>tr. trace (settle cfg i r pl) = trace pl @ tr"
  by (cases r) (simp_all add: settle_def pause_def record_events_def split: prod.split)

lemma loop_trace: "\<exists>tr. trace (loop cfg pl) = trace pl @ tr"
proof (cases "messageQueue pl")
  case Nil
  then show ?thesis by (simp add: loop_def)
next
  case (Cons im rest)
  obtain i m where im: "im = (i, m)" by (cases im)
  let ?pl = "pl\<lparr>messageQueue := rest, trace := trace pl @ [(i, Dequeued m)]\<rparr>"
  from settle_trace [of cfg i "processMessage cfg m (world pl)" ?pl]
  obtain tr where "trace (settle cfg i (processMessage cfg m (world pl)) ?pl) = trace ?pl @ tr"
    by blast
  then show ?thesis
    using Cons im by (simp add: loop_def)
qed

lemma step_trace: "\<exists>tr. trace (step cfg pl inp) = trace pl @ tr"
proof (cases inp)
  case (Deliver m)
  from loop_trace [of cfg "pl\<lparr>messageQueue := messageQueue pl @ [(arrivals pl, m)],
      arrivals := Suc (arrivals pl), isProcessing := True\<rparr>"]
  show ?thesis
    using Deliver by (simp add: step_def handleMessage_def processQueue_def)
next
  case (HostUpdate p)
  then show ?thesis by (simp add: step_def)
next
  case (Timer n)
  show ?thesis
  proof (cases "n < length (workers pl)")
    case False
    with Timer show ?thesis by (simp add: step_def)
  next
    case True
    let ?pl = "pl\<lparr>workers := take n (workers pl) @ drop (Suc n) (workers pl)\<rparr>"
    have "\<exists>tr. trace (resume cfg (workers pl ! n) ?pl) = trace pl @ tr"
    proof (cases "workers pl ! n")
      case (Await_pause i)
      with loop_trace [of cfg ?pl] show ?thesis by (simp add: resume_def)
    next
      case (Await_processMessage i k)
      with settle_trace [of cfg i "k (world ?pl)" ?pl] show ?thesis by (simp add: resume_def)
    qed
    with True Timer show ?thesis by (simp add: step_def)
  qed
qed

lemma run_trace: "\<exists>tr. trace (run cfg inps pl) = trace pl @ tr"
proof (induction inps rule: rev_induct)
  case Nil
  show ?case by (simp add: run_def)
next
  case (snoc inp inps)
  from step_trace [of cfg "run cfg inps pl" inp] snoc show ?case
    by (auto simp: run_def)
qed

lemma hosted_timers: "hosted (inps @ replicate n (Timer 0)) = hosted inps"
  by (induction n) (simp_all add: hosted_append replicate_append_same [symmetric])

lemma accepted_timers: "accepted (inps @ replicate n (Timer 0)) = accepted inps"
  by (induction n) (simp_all add: accepted_def deliveries_append replicate_append_same [symmetric])

text \<open>
  After any inputs, some number of timer callbacks brings the pipeline to rest, and
  then its trace is that of the accepted messages handled one after the other.
\<close>

lemma zip_upt_inj:
  assumes "zip [0..<length xs] xs = zip [0..<length ys] ys"
  shows "xs = ys"
proof -
  have "xs = map snd (zip [0..<length xs] xs)"
    by (rule map_snd_zip [symmetric]) simp
  also have "\<dots> = map snd (zip [0..<length ys] ys)"
    by (simp only: assms)
  also have "\<dots> = ys"
    by (rule map_snd_zip) simp
  finally show ?thesis .
qed

lemma run_served:
  "\<exists>n sched final.
     \<not> isProcessing (run cfg (inps @ replicate n (Timer 0)) (start p))
     \<and> messageQueue (run cfg (inps @ replicate n (Timer 0)) (start p)) = []
     \<and> workers (run cfg (inps @ replicate n (Timer 0)) (start p)) = []
     \<and> take (length (trace (run cfg inps (start p))))
         (trace (run cfg (inps @ replicate n (Timer 0)) (start p))) = trace (run cfg inps (start p))
     \<and> map fst sched = accepted inps
     \<and> hosted_only (hosted inps) sched
     \<and> serve cfg 0 (world_of p) sched =
         (trace (run cfg (inps @ replicate n (Timer 0)) (start p)), final)
     \<and> pendingAttachments final = []"
proof -
  let ?pl = "run cfg inps (start p)"
  from ordered_drains [OF ordered_run [of inps cfg p], of cfg]
  obtain n where n: "\<not> isProcessing (run cfg (replicate n (Timer 0)) ?pl)"
      "messageQueue (run cfg (replicate n (Timer 0)) ?pl) = []"
    by blast
  let ?pl' = "run cfg (inps @ replicate n (Timer 0)) (start p)"
  have pl': "?pl' = run cfg (replicate n (Timer 0)) ?pl"
    by (simp add: run_append)
  have ord: "ordered (accepted inps) ?pl'"
    using ordered_run [of "inps @ replicate n (Timer 0)" cfg p] by (simp only: accepted_timers)
  with n have idle: "workers ?pl' = []" "\<not> isProcessing ?pl'" "messageQueue ?pl' = []"
    by (simp_all add: pl' ordered_def)
  from ord idle have deq: "dequeued (trace ?pl') = zip [0..<length (accepted inps)] (accepted inps)"
    by (simp add: ordered_def)
  have "tracked cfg p (hosted inps) ?pl'"
    using tracked_run [of cfg p "inps @ replicate n (Timer 0)"] by (simp only: hosted_timers)
  with idle(1) have "served cfg p (hosted inps) ?pl'"
    by (simp add: tracked_def)
  then obtain sched w po where
      s: "serve cfg 0 (world_of p) sched = (trace ?pl', w)" "hosted_only (hosted inps) sched"
        "world ?pl' = shown w po"
    unfolding served_def by blast
  have "dequeued (trace ?pl') = zip [0..<length (map fst sched)] (map fst sched)"
    using dequeued_serve [of cfg 0 "world_of p" sched] by (simp add: s(1))
  then have "zip [0..<length (map fst sched)] (map fst sched) =
      zip [0..<length (accepted inps)] (accepted inps)"
    by (simp only: deq)
  then have acc: "map fst sched = accepted inps"
    by (rule zip_upt_inj)
  from run_trace [of cfg "replicate n (Timer 0)" ?pl]
  obtain tr where "trace ?pl' = trace ?pl @ tr"
    unfolding pl' by blast
  then have grows: "take (length (trace ?pl)) (trace ?pl') = trace ?pl"
    by simp
  have "untouched ?pl'"
    by (rule untouched_run)
  then have "pendingAttachments (world ?pl') = []"
    by (simp add: untouched_def nothing_pending_def)
  then have pend: "pendingAttachments w = []"
    by (simp only: s(3) shown_pending)
  show ?thesis
  proof (intro exI conjI)
    show "\<not> isProcessing ?pl'" by (rule idle(2))
    show "messageQueue ?pl' = []" by (rule idle(3))
    show "workers ?pl' = []" by (rule idle(1))
    show "take (length (trace ?pl)) (trace ?pl') = trace ?pl" by (rule grows)
    show "map fst sched = accepted inps" by (rule acc)
    show "hosted_only (hosted inps) sched" by (rule s(2))
    show "serve cfg 0 (world_of p) sched = (trace ?pl', w)" by (rule s(1))
    show "pendingAttachments w = []" by (rule pend)
  qed
qed

text \<open>
  Claim C2. Take any sequence of deliveries, timer callbacks and changes of the page,
  starting from the freshly loaded script. At the end of it: at most one call of
  \<open>processQueue\<close> is suspended, and one is exactly when \<open>isProcessing\<close> is set; the
  messages dequeued so far followed by the queue are the accepted messages in their
  order of arrival, each with its number; the numbers along the trace never go down, so
  everything recorded for one message comes before everything recorded for a later one,
  and they are numbers of messages already dequeued; the suspended worker belongs to
  the last message dequeued. And after some further timer callbacks the worker has
  stopped with the queue empty, and the trace, of which the trace so far is the
  beginning, is that of the accepted messages handled strictly one after the other
  (\<open>serve\<close>): for each message in the order of arrival its dequeuing, then all the
  events of its call of \<open>processMessage\<close> run to its end through every one of its
  sleeps, the toast of an error if it threw, and the pause of the loop; only then is the
  next message dequeued. The pages the calls wake up on are those the host has put in
  place.
\<close>

theorem fifo_single_flight:
  "let pl = run cfg inps (start p) in
     length (workers pl) \<le> 1
     \<and> isProcessing pl = (workers pl \<noteq> [])
     \<and> dequeued (trace pl) @ messageQueue pl = zip [0..<length (accepted inps)] (accepted inps)
     \<and> sorted (map fst (trace pl))
     \<and> list_all (\<lambda>i. i < length (dequeued (trace pl))) (map fst (trace pl))
     \<and> list_all (\<lambda>wk. Suc (worker_index wk) = length (dequeued (trace pl))) (workers pl)
     \<and> (\<exists>n sched final. let pl' = run cfg (inps @ replicate n (Timer 0)) (start p) in
            \<not> isProcessing pl' \<and> messageQueue pl' = [] \<and> workers pl' = []
            \<and> dequeued (trace pl') = zip [0..<length (accepted inps)] (accepted inps)
            \<and> take (length (trace pl)) (trace pl') = trace pl
            \<and> map fst sched = accepted inps
            \<and> hosted_only (hosted inps) sched
            \<and> serve cfg 0 (world_of p) sched = (trace pl', final))"
proof -
  have inv: "ordered (accepted inps) (run cfg inps (start p))"
    by (rule ordered_run)
  from run_served [of cfg inps p]
  obtain n sched final where
      s: "\<not> isProcessing (run cfg (inps @ replicate n (Timer 0)) (start p))"
        "messageQueue (run cfg (inps @ replicate n (Timer 0)) (start p)) = []"
        "workers (run cfg (inps @ replicate n (Timer 0)) (start p)) = []"
        "take (length (trace (run cfg inps (start p))))
           (trace (run cfg (inps @ replicate n (Timer 0)) (start p))) = trace (run cfg inps (start p))"
        "map fst sched = accepted inps"
        "hosted_only (hosted inps) sched"
        "serve cfg 0 (world_of p) sched =
           (trace (run cfg (inps @ replicate n (Timer 0)) (start p)), final)"
    by blast
  have "ordered (accepted inps) (run cfg (inps @ replicate n (Timer 0)) (start p))"
    using ordered_run [of "inps @ replicate n (Timer 0)" cfg p] by (simp only: accepted_timers)
  with s(2) have deq: "dequeued (trace (run cfg (inps @ replicate n (Timer 0)) (start p))) =
      zip [0..<length (accepted inps)] (accepted inps)"
    by (simp add: ordered_def)
  have "\<exists>n sched final. let pl' = run cfg (inps @ replicate n (Timer 0)) (start p) in
            \<not> isProcessing pl' \<and> messageQueue pl' = [] \<and> workers pl' = []
            \<and> dequeued (trace pl') = zip [0..<length (accepted inps)] (accepted inps)
            \<and> take (length (trace (run cfg inps (start p)))) (trace pl') =
                trace (run cfg inps (start p))
            \<and> map fst sched = accepted inps
            \<and> hosted_only (hosted inps) sched
            \<and> serve cfg 0 (world_of p) sched = (trace pl', final)"
    unfolding Let_def using s deq by blast
  with inv show ?thesis
    unfolding Let_def ordered_def by blast
qed

section \<open>Synchronous functions\<close>

lemma returned_after [simp]: "returned (after evs r) = returned r"
  by (cases r) simp_all

lemma returned_bindr: "returned r \<Longrightarrow> (\<And>x w. returned (f x w)) \<Longrightarrow> returned (bindr r f)"
  by (cases r) simp_all

lemma returned_catchr: "returned r \<Longrightarrow> (\<And>e w. returned (h e w)) \<Longrightarrow> returned (catchr r h)"
  by (cases r) simp_all

lemma synchronous_andThen:
  "synchronous m \<Longrightarrow> (\<And>x. synchronous (f x)) \<Longrightarrow> synchronous (andThen m f)"
  by (simp add: synchronous_def andThen_def returned_bindr)

lemma synchronous_try_catch:
  "synchronous m \<Longrightarrow> (\<And>e. synchronous (h e)) \<Longrightarrow> synchronous (try_catch m h)"
  by (simp add: synchronous_def try_catch_def returned_catchr)

lemma synchronous_prims:
  "synchronous (ret x)"
  "synchronous (throw e)"
  "synchronous (emit ev)"
  "synchronous (dispatchEvent el dev)"
  "synchronous (on_page g)"
  "synchronous (set_textContent el t)"
  "synchronous (dump label sels)"
  by (simp_all add: synchronous_def ret_def throw_def emit_def dispatchEvent_def on_page_def
      set_textContent_def dump_def split: sum.split prod.split option.split)

lemma synchronous_if:
  "synchronous a \<Longrightarrow> synchronous b \<Longrightarrow> synchronous (if c then a else b)"
  by simp

lemma synchronous_option:
  "synchronous a \<Longrightarrow> (\<And>x. synchronous (b x)) \<Longrightarrow>
     synchronous (case v of None \<Rightarrow> a | Some x \<Rightarrow> b x)"
  by (cases v) simp_all

lemmas synchronous_intros = synchronous_andThen synchronous_try_catch synchronous_prims
  synchronous_if synchronous_option

lemma synchronous_getInputField: "synchronous getInputField"
  unfolding getInputField_def dumpInputCandidates_def
  by (intro synchronous_intros)

lemma synchronous_getSendButton: "synchronous getSendButton"
  unfolding getSendButton_def dumpButtonCandidates_def
  by (intro synchronous_intros)

lemma synchronous_getDropZone: "synchronous getDropZone"
  unfolding getDropZone_def
  by (intro synchronous_intros)

lemma synchronous_getFileInput: "synchronous getFileInput"
  unfolding getFileInput_def
  by (intro synchronous_intros)

lemma synchronous_injectText: "synchronous (injectText arg)"
  unfolding injectText_def Let_def
  by (intro synchronous_intros synchronous_getInputField)

lemma synchronous_clickSend: "synchronous clickSend"
  unfolding clickSend_def
  by (intro synchronous_intros synchronous_getSendButton)

lemma synchronous_showToast: "synchronous (showToast cfg msg kind)"
  unfolding showToast_def
  by (intro synchronous_intros)

lemma exec_with_synchronous:
  assumes "synchronous m"
  shows "exec_with (m w) ps = (case exec (m w) of (x, w', evs) \<Rightarrow> (x, w', evs, ps))"
proof -
  from assms have "returned (m w)"
    by (simp add: synchronous_def)
  then show ?thesis
    by (cases "m w") simp_all
qed

lemma exec_with_prims:
  "exec_with (ret x w) ps = (Inr x, w, [], ps)"
  "exec_with (throw e w) ps = (Inl e, w, [], ps)"
  "exec_with (emit ev w) ps = (Inr (), w, [ev], ps)"
  "exec_with (dispatchEvent el dev w) ps = (Inr (), w, [Dispatch el dev], ps)"
  "exec_with (on_page g w) ps =
     (case g (page w) of Inl e \<Rightarrow> (Inl e, w, [], ps) | Inr x \<Rightarrow> (Inr x, w, [], ps))"
  by (simp_all add: ret_def throw_def emit_def dispatchEvent_def on_page_def split: sum.split)

section \<open>The state after some wake-ups\<close>

lemma woken_pending [simp]: "pendingAttachments (woken n w ps) = pendingAttachments w"
  by (induction n arbitrary: w ps) (simp_all add: wake_def split: list.split)

lemma wake_page: "page (wake w ps) = page w \<or> Some (page (wake w ps)) \<in> set ps"
proof (cases ps)
  case Nil
  then show ?thesis by simp
next
  case (Cons po rest)
  then show ?thesis by (cases po) simp_all
qed

lemma woken_page: "page (woken n w ps) = page w \<or> Some (page (woken n w ps)) \<in> set ps"
proof (induction n arbitrary: w ps)
  case 0
  show ?case by simp
next
  case (Suc n)
  from Suc.IH [of "wake w ps" "tl ps"]
  have "page (woken (Suc n) w ps) = page (wake w ps)
      \<or> Some (page (woken (Suc n) w ps)) \<in> set (tl ps)"
    by simp
  moreover have "set (tl ps) \<subseteq> set ps"
    by (cases ps) auto
  ultimately show ?case
    using wake_page [of w ps] by auto
qed

lemma woken_Suc: "woken (Suc n) w ps = wake (woken n w ps) (drop n ps)"
proof (induction n arbitrary: w ps)
  case 0
  show ?case by simp
next
  case (Suc n)
  have "woken (Suc (Suc n)) w ps = woken (Suc n) (wake w ps) (tl ps)"
    by simp
  also have "\<dots> = wake (woken n (wake w ps) (tl ps)) (drop n (tl ps))"
    by (rule Suc.IH)
  finally show ?case
    by (simp add: drop_Suc)
qed

section \<open>Running the functions of the content script while the host changes the page\<close>

lemma exec_with_attachFile:
  assumes "atob (page w) base64Data = Some bytes"
  shows "\<exists>evs. exec_with (attachFile base64Data filename mimeType w) ps =
           (Inr (), woken (attach_waits (page w)) w ps,
            Called_attachFile base64Data filename mimeType # evs,
            drop (attach_waits (page w)) ps)
         \<and> list_all inert evs"
proof -
  let ?w2 = "wake (wake w ps) (tl ps)"
  obtain r1 where r1: "exec (getFileInput w) = (r1, w, [])"
    using exec_getFileInput by blast
  obtain r2 where r2: "exec (getFileInput ?w2) = (r2, ?w2, [])"
    using exec_getFileInput by blast
  have three: "woken 3 w ps = wake ?w2 (tl (tl ps))" "drop 3 ps = tl (tl (tl ps))"
    by (simp_all add: numeral_3_eq_3 drop_Suc)
  have one: "woken 1 w ps = wake w ps" "drop 1 ps = tl ps"
    by (simp_all add: drop_Suc)
  show ?thesis
    using assms r1 r2
    by (simp add: attachFile_def exec_with_andThen exec_with_try_catch exec_with_prims
        exec_with_sleep exec_with_synchronous [OF synchronous_getDropZone]
        exec_with_synchronous [OF synchronous_getFileInput] exec_getDropZone
        attach_waits_def three one drop_Suc Let_def
        split: sum.split option.split)
qed

lemma exec_with_attachFile_invalid:
  assumes "atob (page w) base64Data = None"
  shows "exec_with (attachFile base64Data filename mimeType w) ps =
           (Inl InvalidCharacterError, w, [Called_attachFile base64Data filename mimeType], ps)"
  using assms by (simp add: attachFile_def exec_with_andThen exec_with_prims)

lemma exec_with_showToast:
  "\<exists>evs. exec_with (showToast cfg msg kind w) ps = (Inr (), w, evs, ps) \<and> list_all inert evs"
  using exec_showToast [of cfg msg kind w]
  by (auto simp: exec_with_synchronous [OF synchronous_showToast])

lemma exec_with_clickSend:
  "\<exists>r evs. exec_with (clickSend w) ps = (r, w, Called_clickSend # evs, ps)
     \<and> filter is_call evs = []
     \<and> filter is_send evs =
         (case first_enabled (page w) SEND_SELECTORS of Some b \<Rightarrow> [Click b] | None \<Rightarrow> [])"
  using exec_clickSend [of w]
  by (auto simp: exec_with_synchronous [OF synchronous_clickSend])

lemma exec_with_injectText_found:
  assumes "first_match (page w) INPUT_SELECTORS = Inr (Some input)"
  shows "\<exists>w' evs. exec_with (injectText (Some t) w) ps =
            (Inr (), w', Called_injectText (Some t) # evs, ps)
     \<and> list_all inert evs
     \<and> pendingAttachments w' = pendingAttachments w
     \<and> w' = w\<lparr>page := (page w)\<lparr>textContent := textContent (page w')\<rparr>\<rparr>"
  using getInputField_found [OF assms]
  by (simp add: exec_with_synchronous [OF synchronous_injectText] injectText_def prog_defs Let_def)

lemma exec_with_injectText_missing:
  assumes "\<forall>input. first_match (page w) INPUT_SELECTORS \<noteq> Inr (Some input)"
  shows "\<exists>e evs. exec_with (injectText (Some t) w) ps =
            (Inl e, w, Called_injectText (Some t) # evs, ps)
     \<and> list_all inert evs"
  using exec_injectText_missing [OF assms, of t]
  by (auto simp: exec_with_synchronous [OF synchronous_injectText])

section \<open>Properties of message processing while the host changes the page\<close>

lemma wake_textContent:
  "first_enabled (page (wake (w\<lparr>page := (page w)\<lparr>textContent := c\<rparr>\<rparr>) qs)) sels =
     first_enabled (page (wake w qs)) sels"
proof (cases qs)
  case Nil
  then show ?thesis by simp
next
  case (Cons po rest)
  then show ?thesis by (cases po) simp_all
qed

lemma events_with_eq:
  "exec_with r ps = (x, w, evs, rest) \<Longrightarrow> events_with r ps = evs"
  by (simp add: events_with_def finish_def)

lemma caption_arg:
  assumes "truthy (caption m)"
  shows "\<exists>tc. (if attributionPrefix cfg
      then Some (lit ''['' @ interp (sender m) @ lit '']: '' @ interp (caption m))
      else caption m) = Some tc"
  using assms by (cases "caption m") (auto simp: truthy_def)

text \<open>A file without a caption: the one call of \<open>attachFile\<close>, and nothing else.\<close>

lemma file_only_with:
  assumes "truthy (file_data m)"
    and "content_type m \<in> {Some (lit ''file''), Some (lit ''image''), Some (lit ''voice_audio'')}"
    and "\<not> truthy (caption m)"
  shows "\<exists>r w' evs rest. exec_with (processMessage cfg m w) ps =
            (r, w', Called_attachFile (interp (file_data m)) (file_name m) (mime_type m) # evs, rest)
         \<and> list_all inert evs
         \<and> (page w' = page w \<or> Some (page w') \<in> set ps)"
proof (cases "atob (page w) (interp (file_data m))")
  case None
  from exec_with_attachFile_invalid [OF None]
  show ?thesis
    by (simp add: processMessage_file [OF assms(1,2)] exec_with_andThen)
next
  case (Some bytes)
  let ?w1 = "woken (attach_waits (page w)) w ps" and ?ps1 = "drop (attach_waits (page w)) ps"
  from exec_with_attachFile [OF Some]
  obtain A where A: "exec_with (attachFile (interp (file_data m)) (file_name m) (mime_type m) w) ps =
      (Inr (), ?w1, Called_attachFile (interp (file_data m)) (file_name m) (mime_type m) # A, ?ps1)"
      "list_all inert A"
    by blast
  obtain T where T: "exec_with (showToast cfg ([0xD83D, 0xDCCE] @ lit '' '' @ interp (sender m)
      @ lit '' attached: '' @ interp (file_name m)) ''info'' ?w1) ?ps1 = (Inr (), ?w1, T, ?ps1)"
      "list_all inert T"
    using exec_with_showToast by blast
  have "exec_with (processMessage cfg m w) ps =
      (Inr (), ?w1,
       Called_attachFile (interp (file_data m)) (file_name m) (mime_type m) # A @ T, ?ps1)"
    using assms(3) A(1) T(1)
    by (simp add: processMessage_file [OF assms(1,2)] exec_with_andThen exec_with_prims)
  moreover have "list_all inert (A @ T)"
    using A(2) T(2) by simp
  ultimately show ?thesis
    using woken_page [of "attach_waits (page w)" w ps] by blast
qed

text \<open>
  A file with a caption, when the data decodes and the editor is found on the page as
  it is after the sleeps of \<open>attachFile\<close>.
\<close>

lemma file_caption_sent_with:
  assumes "truthy (file_data m)"
    and "content_type m \<in> {Some (lit ''file''), Some (lit ''image''), Some (lit ''voice_audio'')}"
    and "autoSend cfg" and "truthy (caption m)"
    and "atob (page w) (interp (file_data m)) = Some bytes"
    and "first_match (page (woken (attach_waits (page w)) w ps)) INPUT_SELECTORS = Inr (Some input)"
  shows "\<exists>pre post. events_with (processMessage cfg m w) ps =
            pre @ Sleep (attachmentDelay cfg) # Called_clickSend # post
         \<and> filter is_send pre = []
         \<and> filter is_call post = []
         \<and> filter is_send post =
             (case first_enabled (page (woken (Suc (attach_waits (page w))) w ps)) SEND_SELECTORS of
                Some b \<Rightarrow> [Click b] | None \<Rightarrow> [])"
proof -
  let ?w1 = "woken (attach_waits (page w)) w ps" and ?ps1 = "drop (attach_waits (page w)) ps"
  let ?arg = "if attributionPrefix cfg
      then Some (lit ''['' @ interp (sender m) @ lit '']: '' @ interp (caption m))
      else caption m"
  from caption_arg [OF assms(4)] obtain tc where arg: "?arg = Some tc" ..
  from exec_with_attachFile [OF assms(5)]
  obtain A where A: "exec_with (attachFile (interp (file_data m)) (file_name m) (mime_type m) w) ps =
      (Inr (), ?w1, Called_attachFile (interp (file_data m)) (file_name m) (mime_type m) # A, ?ps1)"
      "list_all inert A"
    by blast
  obtain T1 where T1: "exec_with (showToast cfg ([0xD83D, 0xDCCE] @ lit '' '' @ interp (sender m)
      @ lit '' attached: '' @ interp (file_name m)) ''info'' ?w1) ?ps1 = (Inr (), ?w1, T1, ?ps1)"
      "list_all inert T1"
    using exec_with_showToast by blast
  from exec_with_injectText_found [OF assms(6), of tc ?ps1]
  obtain w2 I where I: "exec_with (injectText (Some tc) ?w1) ?ps1 =
        (Inr (), w2, Called_injectText (Some tc) # I, ?ps1)"
      "list_all inert I"
      "w2 = ?w1\<lparr>page := (page ?w1)\<lparr>textContent := textContent (page w2)\<rparr>\<rparr>"
    by blast
  obtain T2 where T2: "exec_with (showToast cfg ([0xD83D, 0xDCAC] @ lit '' '' @ interp (sender m)
      @ lit '': '' @ take 50 (interp (caption m)) @ lit ''...'') ''info'' w2) ?ps1 =
        (Inr (), w2, T2, ?ps1)"
      "list_all inert T2"
    using exec_with_showToast by blast
  let ?w3 = "wake w2 ?ps1"
  from exec_with_clickSend [of ?w3 "tl ?ps1"]
  obtain r S where S: "exec_with (clickSend ?w3) (tl ?ps1) = (r, ?w3, Called_clickSend # S, tl ?ps1)"
      "filter is_call S = []"
      "filter is_send S =
         (case first_enabled (page ?w3) SEND_SELECTORS of Some b \<Rightarrow> [Click b] | None \<Rightarrow> [])"
    by blast
  have "first_enabled (page ?w3) SEND_SELECTORS =
      first_enabled (page (wake ?w1 ?ps1)) SEND_SELECTORS"
    by (subst I(3)) (rule wake_textContent)
  then have click: "first_enabled (page ?w3) SEND_SELECTORS =
      first_enabled (page (woken (Suc (attach_waits (page w))) w ps)) SEND_SELECTORS"
    by (simp only: woken_Suc)
  let ?pre = "Called_attachFile (interp (file_data m)) (file_name m) (mime_type m) # A @ T1
      @ Called_injectText (Some tc) # I @ T2"
  have "\<exists>r'. exec_with (processMessage cfg m w) ps =
      (r', ?w3, ?pre @ Sleep (attachmentDelay cfg) # Called_clickSend # S, tl ?ps1)"
    using assms(3,4) arg A(1) T1(1) I(1) T2(1) S(1)
    by (cases r)
      (simp_all add: processMessage_file [OF assms(1,2)] exec_with_andThen exec_with_prims
        exec_with_sleep)
  then have "events_with (processMessage cfg m w) ps =
      ?pre @ Sleep (attachmentDelay cfg) # Called_clickSend # S"
    by (auto simp: events_with_eq)
  moreover have "filter is_send ?pre = []"
    using A(2) T1(2) I(2) T2(2) by (simp add: inert_filters)
  ultimately show ?thesis
    using S(2,3) click by metis
qed

text \<open>
  A file with a caption, when the data does not decode or the editor is not found on
  the page as it is after the sleeps of \<open>attachFile\<close>.
\<close>

lemma file_caption_failed_with:
  assumes "truthy (file_data m)"
    and "content_type m \<in> {Some (lit ''file''), Some (lit ''image''), Some (lit ''voice_audio'')}"
    and "truthy (caption m)"
    and "atob (page w) (interp (file_data m)) = None
         \<or> (\<forall>input. first_match (page (woken (attach_waits (page w)) w ps)) INPUT_SELECTORS
               \<noteq> Inr (Some input))"
  shows "filter is_send (events_with (processMessage cfg m w) ps) = []"
proof (cases "atob (page w) (interp (file_data m))")
  case None
  from exec_with_attachFile_invalid [OF None]
  show ?thesis
    by (simp add: processMessage_file [OF assms(1,2)] events_with_def finish_def
        exec_with_andThen)
next
  case (Some bytes)
  let ?w1 = "woken (attach_waits (page w)) w ps" and ?ps1 = "drop (attach_waits (page w)) ps"
  from Some assms(4)
  have missing: "\<forall>input. first_match (page ?w1) INPUT_SELECTORS \<noteq> Inr (Some input)"
    by simp
  let ?arg = "if attributionPrefix cfg
      then Some (lit ''['' @ interp (sender m) @ lit '']: '' @ interp (caption m))
      else caption m"
  from caption_arg [OF assms(3)] obtain tc where arg: "?arg = Some tc" ..
  from exec_with_attachFile [OF Some]
  obtain A where A: "exec_with (attachFile (interp (file_data m)) (file_name m) (mime_type m) w) ps =
      (Inr (), ?w1, Called_attachFile (interp (file_data m)) (file_name m) (mime_type m) # A, ?ps1)"
      "list_all inert A"
    by blast
  obtain T1 where T1: "exec_with (showToast cfg ([0xD83D, 0xDCCE] @ lit '' '' @ interp (sender m)
      @ lit '' attached: '' @ interp (file_name m)) ''info'' ?w1) ?ps1 = (Inr (), ?w1, T1, ?ps1)"
      "list_all inert T1"
    using exec_with_showToast by blast
  from exec_with_injectText_missing [OF missing, of tc ?ps1]
  obtain e I where I: "exec_with (injectText (Some tc) ?w1) ?ps1 =
        (Inl e, ?w1, Called_injectText (Some tc) # I, ?ps1)"
      "list_all inert I"
    by blast
  show ?thesis
    using assms(3) arg A T1 I
    by (simp add: processMessage_file [OF assms(1,2)] events_with_def finish_def
        exec_with_andThen exec_with_prims inert_filters)
qed

lemma file_no_caption_with:
  assumes "truthy (file_data m)"
    and "content_type m \<in> {Some (lit ''file''), Some (lit ''image''), Some (lit ''voice_audio'')}"
    and "\<not> truthy (caption m)"
  shows "filter is_send (events_with (processMessage cfg m w) ps) = []"
proof -
  from file_only_with [OF assms, of cfg w ps]
  obtain r w' evs rest where "exec_with (processMessage cfg m w) ps =
      (r, w', Called_attachFile (interp (file_data m)) (file_name m) (mime_type m) # evs, rest)"
      "list_all inert evs"
    by blast
  then show ?thesis
    by (simp add: events_with_eq inert_filters)
qed

text \<open>
  Claim C3, as amended. Take an envelope with file data whose content type is \<^verbatim>\<open>file\<close>,
  \<^verbatim>\<open>image\<close> or \<^verbatim>\<open>voice_audio\<close>, processed with auto-send on and run to its end, whatever
  the host does to the document during the sleeps (\<open>ps\<close>). Without a caption nothing of
  a send action happens: \<open>clickSend\<close> is not called and no button is clicked. With a
  caption, when the file data decodes and the editor is found on the page as it is when
  \<open>injectText\<close> looks for it (after the sleeps of \<open>attachFile\<close>), the events are
  \<open>pre\<close>, then the wait of \<open>attachmentDelay\<close>, then the call of \<open>clickSend\<close>, then
  \<open>post\<close>, where \<open>pre\<close> holds nothing of a send action and \<open>post\<close> holds no call and
  holds the click on the send button if an enabled one is found on the page as it is
  after that wait, and nothing of a send action otherwise. With a caption, when the
  file data does not decode or the editor is not found at that time, nothing of a send
  action happens.
\<close>

theorem file_envelope_send:
  assumes "truthy (file_data m)"
    and "content_type m \<in> {Some (lit ''file''), Some (lit ''image''), Some (lit ''voice_audio'')}"
    and "autoSend cfg"
  shows "let evs = events_with (processMessage cfg m w) ps;
             decoded = (atob (page w) (interp (file_data m)) \<noteq> None);
             at_inject = page (woken (attach_waits (page w)) w ps);
             at_click = page (woken (Suc (attach_waits (page w))) w ps);
             located = (\<exists>input. first_match at_inject INPUT_SELECTORS = Inr (Some input)) in
     (\<not> truthy (caption m) \<longrightarrow> filter is_send evs = [])
     \<and> (truthy (caption m) \<and> decoded \<and> located \<longrightarrow>
          (\<exists>pre post. evs = pre @ Sleep (attachmentDelay cfg) # Called_clickSend # post
             \<and> filter is_send pre = []
             \<and> filter is_call post = []
             \<and> filter is_send post =
                 (case first_enabled at_click SEND_SELECTORS of
                    Some b \<Rightarrow> [Click b] | None \<Rightarrow> [])))
     \<and> (truthy (caption m) \<and> \<not> (decoded \<and> located) \<longrightarrow> filter is_send evs = [])"
proof -
  have a: "\<not> truthy (caption m) \<Longrightarrow> filter is_send (events_with (processMessage cfg m w) ps) = []"
    by (rule file_no_caption_with [OF assms(1,2)])
  have b: "\<exists>pre post. events_with (processMessage cfg m w) ps =
            pre @ Sleep (attachmentDelay cfg) # Called_clickSend # post
         \<and> filter is_send pre = []
         \<and> filter is_call post = []
         \<and> filter is_send post =
             (case first_enabled (page (woken (Suc (attach_waits (page w))) w ps)) SEND_SELECTORS of
                Some b \<Rightarrow> [Click b] | None \<Rightarrow> [])"
    if "truthy (caption m)" "atob (page w) (interp (file_data m)) \<noteq> None"
      "\<exists>input. first_match (page (woken (attach_waits (page w)) w ps)) INPUT_SELECTORS
          = Inr (Some input)"
  proof -
    from that(2) obtain bytes where "atob (page w) (interp (file_data m)) = Some bytes"
      by blast
    moreover from that(3) obtain input where
        "first_match (page (woken (attach_waits (page w)) w ps)) INPUT_SELECTORS = Inr (Some input)"
      by blast
    ultimately show ?thesis
      using file_caption_sent_with [OF assms(1,2,3) that(1)] by blast
  qed
  have c: "filter is_send (events_with (processMessage cfg m w) ps) = []"
    if "truthy (caption m)"
      "\<not> (atob (page w) (interp (file_data m)) \<noteq> None
          \<and> (\<exists>input. first_match (page (woken (attach_waits (page w)) w ps)) INPUT_SELECTORS
                = Inr (Some input)))"
  proof -
    from that(2) have "atob (page w) (interp (file_data m)) = None
         \<or> (\<forall>input. first_match (page (woken (attach_waits (page w)) w ps)) INPUT_SELECTORS
               \<noteq> Inr (Some input))"
      by blast
    then show ?thesis
      by (rule file_caption_failed_with [OF assms(1,2) that(1)])
  qed
  show ?thesis
    unfolding Let_def using a b c by blast
qed

lemma exec_with_nil:
  "exec_with r [] = (case exec r of (x, w, evs) \<Rightarrow> (x, w, evs, []))"
proof (induction r)
  case (Done x w out)
  show ?case by simp
next
  case (Fail e w out)
  show ?case by simp
next
  case (Susp w out k)
  have "exec_with (k w) [] = (case exec (k w) of (x, w, evs) \<Rightarrow> (x, w, evs, []))"
    by (rule Susp.IH) simp
  then show ?case
    by (simp split: prod.split)
qed

lemma events_with_nil: "events_with r [] = events r"
  by (simp add: events_with_def finish_def events_def exec_with_nil split: prod.split)

lemma woken_3: "woken 3 w ps = wake (wake (wake w ps) (tl ps)) (tl (tl ps))"
  by (simp add: numeral_3_eq_3)

lemma woken_4: "woken (Suc 3) w ps = wake (woken 3 w ps) (drop 3 ps)"
  by (rule woken_Suc)

lemma chat_page_drop: "first_match chat_page DROP_SELECTORS = Inr (Some 13)"
  by (simp add: DROP_SELECTORS_def chat_page_def querySelector_def)

lemma busy_page_simps:
  "atob busy_page (lit ''aGk='') = Some (lit ''hi'')"
  "first_match busy_page DROP_SELECTORS = Inr (Some 13)"
  "first_match busy_page INPUT_SELECTORS = Inr (Some 11)"
  "first_enabled busy_page SEND_SELECTORS = None"
  by (simp_all add: busy_page_def chat_page_def DROP_SELECTORS_def INPUT_SELECTORS_def
      SEND_SELECTORS_def querySelector_def)

theorem file_envelope_send_witness:
  "filter is_send (events_with (processMessage CONFIG photo (world_of chat_page))
       [Some blank_page, None, Some draft_page]) = []
   \<and> (\<exists>pre post. events_with (processMessage CONFIG captioned_photo (world_of chat_page)) [] =
          pre @ Sleep 2000 # Called_clickSend # post
        \<and> filter is_send pre = [] \<and> filter is_call post = [] \<and> filter is_send post = [Click 12])
   \<and> filter is_send (events_with (processMessage CONFIG captioned_photo (world_of chat_page))
         [None, Some blank_page]) = []
   \<and> first_enabled busy_page SEND_SELECTORS = None
   \<and> (\<exists>pre post. events_with (processMessage CONFIG captioned_photo (world_of busy_page))
          [None, None, None, Some chat_page] =
          pre @ Sleep 2000 # Called_clickSend # post
        \<and> filter is_send pre = [] \<and> filter is_call post = [] \<and> filter is_send post = [Click 12])"
proof -
  have auto: "autoSend CONFIG" and delay: "attachmentDelay CONFIG = 2000"
    by (simp_all add: CONFIG_def)
  have waits: "attach_waits chat_page = 3" "attach_waits busy_page = 3"
    by (simp_all add: attach_waits_def chat_page_drop busy_page_simps)
  from file_envelope_send [OF photo_fields(1,3) auto, of "world_of chat_page"
      "[Some blank_page, None, Some draft_page]"] photo_fields(5)
  have "filter is_send (events_with (processMessage CONFIG photo (world_of chat_page))
       [Some blank_page, None, Some draft_page]) = []"
    unfolding Let_def by blast
  moreover
  have "page (woken (attach_waits (page (world_of chat_page))) (world_of chat_page) []) = chat_page"
      "page (woken (Suc (attach_waits (page (world_of chat_page)))) (world_of chat_page) [])
         = chat_page"
    unfolding world_of_page waits woken_4 woken_3 by simp_all
  with file_envelope_send [OF photo_fields(2,4) auto, of "world_of chat_page" "[]"]
    photo_fields(6,8)
  have "\<exists>pre post. events_with (processMessage CONFIG captioned_photo (world_of chat_page)) [] =
          pre @ Sleep 2000 # Called_clickSend # post
        \<and> filter is_send pre = [] \<and> filter is_call post = [] \<and> filter is_send post = [Click 12]"
    unfolding Let_def by (simp add: delay chat_page_send chat_page_atob chat_page_input)
  moreover
  have "page (woken (attach_waits (page (world_of chat_page))) (world_of chat_page)
      [None, Some blank_page]) = blank_page"
    unfolding world_of_page waits woken_3 by simp
  with file_envelope_send [OF photo_fields(2,4) auto, of "world_of chat_page"
      "[None, Some blank_page]"] photo_fields(6)
  have "filter is_send (events_with (processMessage CONFIG captioned_photo (world_of chat_page))
         [None, Some blank_page]) = []"
    unfolding Let_def by (simp add: blank_page_input)
  moreover
  have "page (woken (attach_waits (page (world_of busy_page))) (world_of busy_page)
      [None, None, None, Some chat_page]) = busy_page"
      "page (woken (Suc (attach_waits (page (world_of busy_page)))) (world_of busy_page)
      [None, None, None, Some chat_page]) = chat_page"
    unfolding world_of_page waits woken_4 woken_3 by simp_all
  with file_envelope_send [OF photo_fields(2,4) auto, of "world_of busy_page"
      "[None, None, None, Some chat_page]"] photo_fields(6,8)
  have "\<exists>pre post. events_with (processMessage CONFIG captioned_photo (world_of busy_page))
          [None, None, None, Some chat_page] =
          pre @ Sleep 2000 # Called_clickSend # post
        \<and> filter is_send pre = [] \<and> filter is_call post = [] \<and> filter is_send post = [Click 12]"
    unfolding Let_def by (simp add: delay chat_page_send busy_page_simps)
  ultimately show ?thesis
    using busy_page_simps(4) by blast
qed

text \<open>
  Counterexample to claim C3 as stated: a photo with a caption, auto-send on, on a page
  where the editor is not found. The attachment is made, \<open>injectText\<close> throws, and
  nothing of a send action happens.
\<close>

theorem file_envelope_send_counterexample:
  "truthy (file_data captioned_photo)
   \<and> content_type captioned_photo = Some (lit ''image'')
   \<and> truthy (caption captioned_photo)
   \<and> autoSend CONFIG
   \<and> filter is_call (events (processMessage CONFIG captioned_photo (world_of blank_page))) =
       [Called_attachFile (lit ''aGk='') (Some (lit ''a.png'')) (Some (lit ''image/png'')),
        Called_injectText (Some (lit ''[Ana]: look''))]
   \<and> filter is_send (events (processMessage CONFIG captioned_photo (world_of blank_page))) = []
   \<and> fst (exec (processMessage CONFIG captioned_photo (world_of blank_page))) =
       Inl (JsError ''Input field not found'')"
proof -
  have atob: "atob (page (world_of blank_page)) (lit ''aGk='') = Some (lit ''hi'')"
    by (simp add: blank_page_def chat_page_def)
  from exec_attachFile [OF atob]
  obtain A where A: "exec (attachFile (lit ''aGk='') (Some (lit ''a.png''))
        (Some (lit ''image/png'')) (world_of blank_page)) =
      (Inr (), world_of blank_page,
       Called_attachFile (lit ''aGk='') (Some (lit ''a.png'')) (Some (lit ''image/png'')) # A)"
      "list_all inert A"
    by blast
  have scan: "scan blank_page INPUT_DEBUG_SELECTORS = ([], None)"
    by (simp add: INPUT_DEBUG_SELECTORS_def blank_page_def chat_page_def)
  have inject: "exec (injectText (Some (lit ''[Ana]: look'')) (world_of blank_page)) =
      (Inl (JsError ''Input field not found''), world_of blank_page,
       [Called_injectText (Some (lit ''[Ana]: look'')),
        ConsoleGroup ''[Claude Bridge] DOM Scan - Input Field Candidates'', ConsoleGroupEnd])"
    by (simp add: injectText_def getInputField_def dumpInputCandidates_def dump_def
        exec_andThen exec_prims blank_page_input scan)
  have fields: "sender captioned_photo = Some (lit ''Ana'')"
      "caption captioned_photo = Some (lit ''look'')"
      "file_name captioned_photo = Some (lit ''a.png'')"
      "mime_type captioned_photo = Some (lit ''image/png'')"
      "content_type captioned_photo = Some (lit ''image'')"
      "file_data captioned_photo = Some (lit ''aGk='')"
    by (simp_all add: captioned_photo_def photo_def)
  have arg: "lit ''['' @ lit ''Ana'' @ lit '']: '' @ lit ''look'' = lit ''[Ana]: look''"
      "truthy (Some (lit ''look''))"
    by (simp_all add: lit_def truthy_def)
  have run: "exec (processMessage CONFIG captioned_photo (world_of blank_page)) =
      (Inl (JsError ''Input field not found''), world_of blank_page,
       Called_attachFile (lit ''aGk='') (Some (lit ''a.png'')) (Some (lit ''image/png'')) # A
       @ [Toast ([0xD83D, 0xDCCE] @ lit '' '' @ lit ''Ana'' @ lit '' attached: '' @ lit ''a.png'')
            ''info'',
          Called_injectText (Some (lit ''[Ana]: look'')),
          ConsoleGroup ''[Claude Bridge] DOM Scan - Input Field Candidates'', ConsoleGroupEnd])"
    using A(1) inject
    by (simp add: processMessage_file [OF photo_fields(2,4)] photo_fields fields arg
        exec_andThen exec_prims showToast_def CONFIG_def interp_def)
  have auto: "autoSend CONFIG"
    by (simp add: CONFIG_def)
  show ?thesis
    using A(2) auto photo_fields(2,6) fields(5) by (simp add: run events_def inert_filters)
qed

section \<open>A photo without a caption, then a text\<close>

lemma exec_injectText_keeps_pending:
  assumes "first_match (page w) INPUT_SELECTORS = Inr (Some input)"
  shows "\<exists>w' evs. exec (injectText (Some t) w) = (Inr (), w', Called_injectText (Some t) # evs)
     \<and> list_all inert evs \<and> pendingAttachments w' = pendingAttachments w"
  using getInputField_found [OF assms]
  by (simp add: injectText_def prog_defs Let_def)

lemma exec_clickSend_keeps_pending:
  "\<exists>r evs. exec (clickSend w) = (r, w, Called_clickSend # evs) \<and> filter is_call evs = []"
  using exec_clickSend [of w] by blast

lemma processMessage_text:
  assumes "content_type m = Some (lit ''text'')" and "msg_text m = Some t"
  shows "processMessage cfg m =
     andThen (injectText (if attributionPrefix cfg
                then Some (lit ''['' @ interp (sender m) @ lit '']: '' @ t) else Some t)) (\<lambda>_.
     andThen (showToast cfg ([0xD83D, 0xDCAC] @ lit '' '' @ interp (sender m) @ lit '': ''
                @ take 50 t @ lit ''...'') ''info'') (\<lambda>_.
     if autoSend cfg then
       andThen (sleep (messageDelay cfg)) (\<lambda>_. andThen clickSend (\<lambda>_. ret ()))
     else ret ()))"
  using assms
  by (simp add: processMessage_def content_type_literals Let_def interp_def
      split del: if_split cong: if_cong)

lemma photo_calls:
  assumes "truthy (file_data m)" and "content_type m = Some (lit ''image'')"
    and "\<not> truthy (caption m)"
    and "atob (page w) (interp (file_data m)) = Some bytes"
  shows "\<exists>evs. exec (processMessage cfg m w) = (Inr (), w, evs)
     \<and> filter is_call evs = [Called_attachFile (interp (file_data m)) (file_name m) (mime_type m)]"
proof -
  have ct: "content_type m \<in> {Some (lit ''file''), Some (lit ''image''), Some (lit ''voice_audio'')}"
    using assms(2) by simp
  from exec_attachFile [OF assms(4)]
  obtain A where A: "exec (attachFile (interp (file_data m)) (file_name m) (mime_type m) w) =
      (Inr (), w, Called_attachFile (interp (file_data m)) (file_name m) (mime_type m) # A)"
      "list_all inert A"
    by blast
  obtain T where T: "exec (showToast cfg ([0xD83D, 0xDCCE] @ lit '' '' @ interp (sender m)
      @ lit '' attached: '' @ interp (file_name m)) ''info'' w) = (Inr (), w, T)" "list_all inert T"
    using exec_showToast by blast
  show ?thesis
    using assms(3) A T
    by (simp add: processMessage_file [OF assms(1) ct] exec_andThen exec_prims inert_filters)
qed

lemma text_calls:
  assumes "content_type m = Some (lit ''text'')" and "msg_text m = Some t"
    and "autoSend cfg"
    and "first_match (page w) INPUT_SELECTORS = Inr (Some input)"
  shows "\<exists>r w2 pre post. exec (processMessage cfg m w) =
            (r, w2, pre @ Sleep (messageDelay cfg) # Called_clickSend # post)
     \<and> filter is_call pre =
         [Called_injectText (Some (if attributionPrefix cfg
            then lit ''['' @ interp (sender m) @ lit '']: '' @ t else t))]
     \<and> filter is_call post = []
     \<and> pendingAttachments w2 = pendingAttachments w"
proof -
  let ?arg = "if attributionPrefix cfg then lit ''['' @ interp (sender m) @ lit '']: '' @ t else t"
  have arg: "(if attributionPrefix cfg
      then Some (lit ''['' @ interp (sender m) @ lit '']: '' @ t) else Some t) = Some ?arg"
    by simp
  from exec_injectText_keeps_pending [OF assms(4), of ?arg]
  obtain w' I where I: "exec (injectText (Some ?arg) w) = (Inr (), w', Called_injectText (Some ?arg) # I)"
      "list_all inert I" "pendingAttachments w' = pendingAttachments w"
    by blast
  obtain T where T: "exec (showToast cfg ([0xD83D, 0xDCAC] @ lit '' '' @ interp (sender m)
      @ lit '': '' @ take 50 t @ lit ''...'') ''info'' w') = (Inr (), w', T)" "list_all inert T"
    using exec_showToast by blast
  from exec_clickSend_keeps_pending [of w']
  obtain r S where S: "exec (clickSend w') = (r, w', Called_clickSend # S)" "filter is_call S = []"
    by blast
  let ?pre = "Called_injectText (Some ?arg) # I @ T"
  have "\<exists>r'. exec (processMessage cfg m w) =
      (r', w', ?pre @ Sleep (messageDelay cfg) # Called_clickSend # S)"
    using assms(3) I(1) T(1) S(1)
    by (cases r;
        simp only: processMessage_text [OF assms(1,2)] arg exec_andThen exec_prims
          prod.case sum.case if_True append_Cons append_Nil append_assoc simp_thms ex_simps;
        simp)
  moreover have "filter is_call ?pre = [Called_injectText (Some ?arg)]"
    using I(2) T(2) by (simp add: inert_filters)
  ultimately show ?thesis
    using S(2) I(3) by blast
qed

lemma hello_fields:
  "content_type hello = Some (lit ''text'')" "msg_text hello = Some (lit ''hello'')"
  "sender hello = Some (lit ''Ana'')"
  "content_type photo = Some (lit ''image'')" "file_name photo = Some (lit ''a.png'')"
  "mime_type photo = Some (lit ''image/png'')"
  by (simp_all add: hello_def photo_def)

lemma config_fields: "autoSend CONFIG" "attributionPrefix CONFIG" "messageDelay CONFIG = 500"
  by (simp_all add: CONFIG_def)

lemma hello_arg: "lit ''['' @ interp (Some (lit ''Ana'')) @ lit '']: '' @ lit ''hello'' =
    lit ''[Ana]: hello''"
  by (simp add: lit_def interp_def)

subsection \<open>Through the queue\<close>

lemma effects_of_append: "effects_of i (tr @ tr') = effects_of i tr @ effects_of i tr'"
  by (induction tr rule: effects_of.induct) simp_all

lemma effects_of_same [simp]: "effects_of i (map (\<lambda>e. (i, Effect e)) evs) = evs"
  by (induction evs) simp_all

lemma effects_of_other [simp]: "j \<noteq> i \<Longrightarrow> effects_of i (map (\<lambda>e. (j, Effect e)) evs) = []"
  by (induction evs) simp_all

lemma turn_cases:
  assumes "exec_with (processMessage cfg m w) ps = (r, w', evs, rest)"
  shows "\<exists>tail. turn cfg m w ps = (w', evs @ tail) \<and> list_all inert tail"
proof (cases r)
  case (Inr u)
  with assms show ?thesis
    by (simp add: turn_def)
next
  case (Inl err)
  with assms show ?thesis
    by (simp add: turn_def exec_showErrorToast)
qed

lemma photo_turn:
  assumes "truthy (file_data m)" and "content_type m = Some (lit ''image'')"
    and "\<not> truthy (caption m)"
  shows "\<exists>w' evs. turn cfg m w ps = (w', evs)
     \<and> filter is_call evs = [Called_attachFile (interp (file_data m)) (file_name m) (mime_type m)]
     \<and> (page w' = page w \<or> Some (page w') \<in> set ps)"
proof -
  have ct: "content_type m \<in> {Some (lit ''file''), Some (lit ''image''), Some (lit ''voice_audio'')}"
    using assms(2) by simp
  from file_only_with [OF assms(1) ct assms(3), of cfg w ps]
  obtain r w' evs rest where e: "exec_with (processMessage cfg m w) ps =
      (r, w', Called_attachFile (interp (file_data m)) (file_name m) (mime_type m) # evs, rest)"
      "list_all inert evs" "page w' = page w \<or> Some (page w') \<in> set ps"
    by blast
  from turn_cases [OF e(1)] obtain tail where
      t: "turn cfg m w ps =
        (w', (Called_attachFile (interp (file_data m)) (file_name m) (mime_type m) # evs) @ tail)"
        "list_all inert tail"
    by blast
  have "filter is_call ((Called_attachFile (interp (file_data m)) (file_name m) (mime_type m) # evs)
      @ tail) = [Called_attachFile (interp (file_data m)) (file_name m) (mime_type m)]"
    using e(2) t(2) by (simp add: inert_filters)
  with t(1) e(3) show ?thesis
    by blast
qed

lemma text_with:
  assumes "content_type m = Some (lit ''text'')" and "msg_text m = Some t"
    and "autoSend cfg"
  shows "\<exists>r w' evs rest. exec_with (processMessage cfg m w) ps =
        (r, w', Called_injectText (if attributionPrefix cfg
            then Some (lit ''['' @ interp (sender m) @ lit '']: '' @ t) else Some t) # evs, rest)
     \<and> (filter is_call evs = [Called_clickSend] \<or> filter is_call evs = [])
     \<and> ((\<exists>input. first_match (page w) INPUT_SELECTORS = Inr (Some input)) \<longrightarrow>
          (\<exists>pre post. evs = pre @ Sleep (messageDelay cfg) # Called_clickSend # post
             \<and> list_all inert pre \<and> filter is_call post = []))
     \<and> ((\<forall>input. first_match (page w) INPUT_SELECTORS \<noteq> Inr (Some input)) \<longrightarrow>
          filter is_call evs = [])"
proof -
  let ?tc = "if attributionPrefix cfg then lit ''['' @ interp (sender m) @ lit '']: '' @ t else t"
  have arg: "(if attributionPrefix cfg
      then Some (lit ''['' @ interp (sender m) @ lit '']: '' @ t) else Some t) = Some ?tc"
    by simp
  note pm = processMessage_text [OF assms(1,2), of cfg, unfolded arg]
  show ?thesis
  proof (cases "\<exists>input. first_match (page w) INPUT_SELECTORS = Inr (Some input)")
    case True
    then obtain input where input: "first_match (page w) INPUT_SELECTORS = Inr (Some input)" ..
    from exec_with_injectText_found [OF input, of ?tc ps]
    obtain w2 I where I: "exec_with (injectText (Some ?tc) w) ps =
          (Inr (), w2, Called_injectText (Some ?tc) # I, ps)"
        "list_all inert I"
      by blast
    obtain T where T: "exec_with (showToast cfg ([0xD83D, 0xDCAC] @ lit '' '' @ interp (sender m)
        @ lit '': '' @ take 50 t @ lit ''...'') ''info'' w2) ps = (Inr (), w2, T, ps)"
        "list_all inert T"
      using exec_with_showToast by blast
    let ?w3 = "wake w2 ps"
    from exec_with_clickSend [of ?w3 "tl ps"]
    obtain r S where S: "exec_with (clickSend ?w3) (tl ps) = (r, ?w3, Called_clickSend # S, tl ps)"
        "filter is_call S = []"
      by blast
    have "\<exists>r'. exec_with (processMessage cfg m w) ps =
        (r', ?w3, Called_injectText (Some ?tc)
           # (I @ T) @ Sleep (messageDelay cfg) # Called_clickSend # S, tl ps)"
      using assms(3) I(1) T(1) S(1)
      by (cases r)
        (simp_all add: pm exec_with_andThen exec_with_prims exec_with_sleep
          split del: if_split)
    moreover have "list_all inert (I @ T)"
      using I(2) T(2) by simp
    moreover have "filter is_call ((I @ T) @ Sleep (messageDelay cfg) # Called_clickSend # S) =
        [Called_clickSend]"
      using I(2) T(2) S(2) by (simp add: inert_filters)
    ultimately show ?thesis
      using True S(2) unfolding arg by blast
  next
    case False
    then have missing: "\<forall>input. first_match (page w) INPUT_SELECTORS \<noteq> Inr (Some input)"
      by blast
    from exec_with_injectText_missing [OF missing, of ?tc ps]
    obtain e I where I: "exec_with (injectText (Some ?tc) w) ps =
          (Inl e, w, Called_injectText (Some ?tc) # I, ps)"
        "list_all inert I"
      by blast
    have "exec_with (processMessage cfg m w) ps = (Inl e, w, Called_injectText (Some ?tc) # I, ps)"
      using I(1) by (simp add: pm exec_with_andThen split del: if_split)
    moreover have "filter is_call I = []"
      using I(2) by (simp add: inert_filters)
    ultimately show ?thesis
      using False unfolding arg by blast
  qed
qed

lemma text_turn:
  assumes "content_type m = Some (lit ''text'')" and "msg_text m = Some t"
    and "autoSend cfg"
  shows "\<exists>w' evs. turn cfg m w ps =
        (w', Called_injectText (if attributionPrefix cfg
            then Some (lit ''['' @ interp (sender m) @ lit '']: '' @ t) else Some t) # evs)
     \<and> (filter is_call evs = [Called_clickSend] \<or> filter is_call evs = [])
     \<and> ((\<exists>input. first_match (page w) INPUT_SELECTORS = Inr (Some input)) \<longrightarrow>
          (\<exists>pre post. evs = pre @ Sleep (messageDelay cfg) # Called_clickSend # post
             \<and> list_all inert pre \<and> filter is_call post = []))"
proof -
  let ?call = "Called_injectText (if attributionPrefix cfg
      then Some (lit ''['' @ interp (sender m) @ lit '']: '' @ t) else Some t)"
  from text_with [OF assms, of w ps]
  obtain r w' evs rest where e: "exec_with (processMessage cfg m w) ps = (r, w', ?call # evs, rest)"
      "filter is_call evs = [Called_clickSend] \<or> filter is_call evs = []"
      "(\<exists>input. first_match (page w) INPUT_SELECTORS = Inr (Some input)) \<longrightarrow>
          (\<exists>pre post. evs = pre @ Sleep (messageDelay cfg) # Called_clickSend # post
             \<and> list_all inert pre \<and> filter is_call post = [])"
    by blast
  from turn_cases [OF e(1)] obtain tail where
      t: "turn cfg m w ps = (w', (?call # evs) @ tail)" "list_all inert tail"
    by blast
  have tail: "filter is_call tail = []"
    using t(2) by (simp add: inert_filters)
  have "turn cfg m w ps = (w', ?call # (evs @ tail))"
    using t(1) by simp
  moreover have "filter is_call (evs @ tail) = [Called_clickSend] \<or> filter is_call (evs @ tail) = []"
    using e(2) tail by auto
  moreover have "\<exists>pre post. evs @ tail = pre @ Sleep (messageDelay cfg) # Called_clickSend # post
             \<and> list_all inert pre \<and> filter is_call post = []"
    if "\<exists>input. first_match (page w) INPUT_SELECTORS = Inr (Some input)"
  proof -
    from e(3) that obtain pre post where
        p: "evs = pre @ Sleep (messageDelay cfg) # Called_clickSend # post"
          "list_all inert pre" "filter is_call post = []"
      by blast
    have "evs @ tail = pre @ Sleep (messageDelay cfg) # Called_clickSend # (post @ tail)"
      using p(1) by simp
    moreover have "filter is_call (post @ tail) = []"
      using p(3) tail by simp
    ultimately show ?thesis
      using p(2) by blast
  qed
  ultimately show ?thesis
    by blast
qed

lemma from_host_page:
  "from_host hs po \<Longrightarrow> page w \<in> set (p # hs) \<Longrightarrow> page (shown w po) \<in> set (p # hs)"
  by (cases po) (simp_all add: from_host_def)

lemma from_host_member:
  "list_all (from_host hs) ps \<Longrightarrow> Some q \<in> set ps \<Longrightarrow> q \<in> set hs"
  by (auto simp: list_all_iff from_host_def)


lemma two_deliveries:
  "deliveries [Deliver photo, HostUpdate draft_page, Deliver hello] = [photo, hello]"
  "hosted [Deliver photo, HostUpdate draft_page, Deliver hello] = [draft_page]"
  "type photo = lit ''message''" "type hello = lit ''message''"
  by (simp_all add: photo_def hello_def)


lemma text_calls_missing:
  assumes "content_type m = Some (lit ''text'')" and "msg_text m = Some t"
    and "autoSend cfg"
    and "\<forall>input. first_match (page w) INPUT_SELECTORS \<noteq> Inr (Some input)"
  shows "filter is_call (events (processMessage cfg m w)) =
     [Called_injectText (if attributionPrefix cfg
        then Some (lit ''['' @ interp (sender m) @ lit '']: '' @ t) else Some t)]"
proof -
  let ?call = "Called_injectText (if attributionPrefix cfg
      then Some (lit ''['' @ interp (sender m) @ lit '']: '' @ t) else Some t)"
  from text_with [OF assms(1,2,3), of w "[]"] assms(4)
  obtain r w' evs rest where
      "exec_with (processMessage cfg m w) [] = (r, w', ?call # evs, rest)"
      "filter is_call evs = []"
    by blast
  then have "events_with (processMessage cfg m w) [] = ?call # evs" "filter is_call evs = []"
    by (simp_all add: events_with_eq)
  then show ?thesis
    unfolding events_with_nil by (simp split del: if_split)
qed


end
